theory Spec2Isabelle
  imports Complex_Main "HOL-Library.AList"
begin

section \<open>JavaScript values\<close>

text \<open>
  A JavaScript string is a sequence of UTF-16 code units. String literals of the source are
  written \<open>js ''...''\<close>.
\<close>

type_synonym code_unit = nat
type_synonym jsstring = "code_unit list"

definition js :: "string \<Rightarrow> jsstring" where
  "js cs = map of_char cs"

text \<open>
  Numbers are only passed through and tested for truthiness; \<open>Num 0\<close> stands for both zeros.
\<close>

datatype number = NaN | PosInfinity | NegInfinity | Num rat

text \<open>
  The errors the program can run into: the TypeError of reading a property of \<open>null\<close>, and
  whatever the code of a host object throws when its properties are read (with its message).
\<close>

datatype jserror = TypeError | Thrown jsstring

text \<open>
  The values \<open>maskPII\<close> can be called with. An object is the list of its own enumerable
  string-keyed properties in property order (what \<open>Object.entries\<close> returns); an array is the
  list of its elements. The last two constructors are no members of the spec's Value union:
  \<open>JFunction\<close> is a function value, for which \<open>typeof\<close> gives neither \<open>'object'\<close> nor
  \<open>'string'\<close>; \<open>JHost\<close> is an object that is no plain data (a \<open>Date\<close>, a \<open>Map\<close>, an instance of a
  class, an object with accessor properties, a proxy), for which \<open>typeof\<close> gives \<open>'object'\<close>:
  reading its own enumerable properties either throws (a getter or a trap that throws) or gives
  a list of entries. A value of this type is a finite tree; an object that holds itself is not
  represented.
\<close>

datatype jsvalue =
    JUndefined
  | JNull
  | JBool bool
  | JNumber number
  | JString jsstring
  | JArray "jsvalue list"
  | JObject "(jsstring \<times> jsvalue) list"
  | JFunction
  | JHost "jserror + (jsstring \<times> jsvalue) list"

type_synonym properties = "(jsstring \<times> jsvalue) list"

text \<open>\<open>ToBoolean\<close>, as used by \<open>!config.enabled\<close>.\<close>

fun truthy :: "jsvalue \<Rightarrow> bool" where
  "truthy JUndefined = False"
| "truthy JNull = False"
| "truthy (JBool b) = b"
| "truthy (JNumber n) = (n \<noteq> NaN \<and> n \<noteq> Num 0)"
| "truthy (JString s) = (s \<noteq> [])"
| "truthy (JArray xs) = True"
| "truthy (JObject kvs) = True"
| "truthy JFunction = True"
| "truthy (JHost h) = True"

text \<open>
  \<open>obj[key]\<close> on an object whose properties are \<open>props\<close>: the value of the own property, or
  \<open>undefined\<close>. The only keys the program reads are \<open>enabled\<close> and the five rule ids, none of
  which is defined on \<open>Object.prototype\<close>.
\<close>

definition get_property :: "properties \<Rightarrow> jsstring \<Rightarrow> jsvalue" where
  "get_property props key = (case map_of props key of None \<Rightarrow> JUndefined | Some v \<Rightarrow> v)"

text \<open>
  \<open>masked[key] = v\<close> on an ordinary object created by \<open>{}\<close>. An existing own property keeps
  its place and gets the new value; a new key is appended. The key \<open>__proto__\<close> is no own
  property of a fresh object: the assignment finds the accessor \<open>__proto__\<close> inherited from
  \<open>Object.prototype\<close> and calls its setter, which changes the prototype (when \<open>v\<close> is an
  object or null) or does nothing, and in neither case creates an own property.
\<close>

definition set_property :: "properties \<Rightarrow> jsstring \<Rightarrow> jsvalue \<Rightarrow> properties" where
  "set_property props key v =
     (if key = js ''__proto__'' then props else AList.update key v props)"

section \<open>Regular expressions\<close>

text \<open>
  The fragment of ECMAScript regular expressions the five patterns use: character classes with
  \<open>\d\<close> and \<open>\s\<close>, the assertion \<open>\b\<close>, sequences, alternatives and greedy quantifiers
  \<open>{min,max}\<close> (\<open>?\<close> is \<open>{0,1}\<close>, \<open>+\<close> is \<open>{1,}\<close>). No pattern has the flags \<open>i\<close> or
  \<open>u\<close>.
\<close>

datatype class_atom =
    Single code_unit
  | Range code_unit code_unit
  | Digit
  | Space

text \<open>\<open>\s\<close> is WhiteSpace and LineTerminator of ECMAScript.\<close>

definition white_space :: "code_unit list" where
  "white_space =
     [0x9, 0xA, 0xB, 0xC, 0xD, 0x20, 0xA0, 0x1680,
      0x2000, 0x2001, 0x2002, 0x2003, 0x2004, 0x2005, 0x2006, 0x2007, 0x2008, 0x2009, 0x200A,
      0x2028, 0x2029, 0x202F, 0x205F, 0x3000, 0xFEFF]"

fun atom_matches :: "class_atom \<Rightarrow> code_unit \<Rightarrow> bool" where
  "atom_matches (Single a) c = (c = a)"
| "atom_matches (Range lo hi) c = (lo \<le> c \<and> c \<le> hi)"
| "atom_matches Digit c = (0x30 \<le> c \<and> c \<le> 0x39)"
| "atom_matches Space c = (c \<in> set white_space)"

definition class_matches :: "class_atom list \<Rightarrow> code_unit \<Rightarrow> bool" where
  "class_matches atoms c = (\<exists>a \<in> set atoms. atom_matches a c)"

text \<open>\<open>\w\<close>: the word characters \<open>[A-Za-z0-9_]\<close>, which \<open>\b\<close> is defined by.\<close>

definition is_word_char :: "code_unit \<Rightarrow> bool" where
  "is_word_char c =
     ((0x41 \<le> c \<and> c \<le> 0x5A) \<or> (0x61 \<le> c \<and> c \<le> 0x7A) \<or> (0x30 \<le> c \<and> c \<le> 0x39) \<or> c = 0x5F)"

definition word_at :: "jsstring \<Rightarrow> int \<Rightarrow> bool" where
  "word_at s e = (0 \<le> e \<and> e < int (length s) \<and> is_word_char (s ! nat e))"

datatype regex =
    Class "class_atom list"
  | WordBoundary
  | Cat "regex list"
  | Alt regex regex
  | Quant nat "nat option" regex

text \<open>
  The greedy \<open>RepeatMatcher\<close> of ECMAScript for a body whose matcher is \<open>m\<close>, in a string of
  length \<open>n\<close>, with the bounds \<open>mn\<close> and \<open>mx\<close> (no \<open>mx\<close> is no upper bound): the end
  indices of all ways to continue from index \<open>i\<close>, in backtracking order. Once \<open>mn\<close> is zero
  an iteration that consumed nothing is abandoned. An end index a matcher cannot produce
  (before \<open>i\<close> or beyond \<open>n\<close>) is skipped.
\<close>

function repeat_matcher ::
  "(nat \<Rightarrow> nat list) \<Rightarrow> nat \<Rightarrow> nat \<Rightarrow> nat option \<Rightarrow> nat \<Rightarrow> nat list" where
  "repeat_matcher m n mn mx i =
     (if mx = Some 0 then [i]
      else
        let more = concat (map (\<lambda>y.
                     if (mn = 0 \<and> y = i) \<or> y < i \<or> n < y then []
                     else repeat_matcher m n (mn - 1) (map_option (\<lambda>k. k - 1) mx) y) (m i))
        in if mn \<noteq> 0 then more else more @ [i])"
  by pat_completeness auto
termination
  by (relation "measure (\<lambda>(m, n, mn, mx, i). (n - i) + mn)") auto

text \<open>
  \<open>matcher r s i\<close>: the end indices of the matches of \<open>r\<close> in \<open>s\<close> that start at index \<open>i\<close>,
  in the order in which backtracking tries them. The head is the match the engine reports.
\<close>

fun matcher :: "regex \<Rightarrow> jsstring \<Rightarrow> nat \<Rightarrow> nat list" where
  "matcher (Class atoms) s i = (if i < length s \<and> class_matches atoms (s ! i) then [i + 1] else [])"
| "matcher WordBoundary s i =
     (if word_at s (int i - 1) \<noteq> word_at s (int i) then [i] else [])"
| "matcher (Cat []) s i = [i]"
| "matcher (Cat (r # rs)) s i = concat (map (matcher (Cat rs) s) (matcher r s i))"
| "matcher (Alt r1 r2) s i = matcher r1 s i @ matcher r2 s i"
| "matcher (Quant mn mx r) s i = repeat_matcher (matcher r s) (length s) mn mx i"

text \<open>\<open>s.substring(i, e)\<close> for \<open>i \<le> e\<close>.\<close>

definition substring :: "jsstring \<Rightarrow> nat \<Rightarrow> nat \<Rightarrow> jsstring" where
  "substring s i e = take (e - i) (drop i s)"

text \<open>
  The second argument of \<open>replace\<close>: a string or a function of the matched substring. The
  constant placeholders of the registry contain no \<open>$\<close>, so that no substitution pattern of
  \<open>GetSubstitution\<close> applies to them.
\<close>

datatype replacement = Constant jsstring | Computed "jsstring \<Rightarrow> jsstring"

fun replace_value :: "replacement \<Rightarrow> jsstring \<Rightarrow> jsstring" where
  "replace_value (Constant p) matched = p"
| "replace_value (Computed f) matched = f matched"

text \<open>
  \<open>s.replace(pattern, replacement)\<close> for a pattern with the flag \<open>g\<close>, from index \<open>i\<close> on: the
  search starts at \<open>lastIndex = 0\<close>; where no match starts the code unit is kept and the search
  moves one index on; a match is replaced and the search goes on at its end (one index further
  after an empty match).
\<close>

function replace_from :: "regex \<Rightarrow> replacement \<Rightarrow> jsstring \<Rightarrow> nat \<Rightarrow> jsstring" where
  "replace_from p r s i =
     (if length s < i then []
      else case matcher p s i of
             [] \<Rightarrow> (if i < length s then s ! i # replace_from p r s (i + 1) else [])
           | e # _ \<Rightarrow>
               if i < e then replace_value r (substring s i e) @ replace_from p r s e
               else replace_value r [] @
                    (if i < length s then s ! i # replace_from p r s (i + 1) else []))"
  by pat_completeness auto
termination
  by (relation "measure (\<lambda>(p, r, s, i). length s + 1 - i)") auto

definition replace :: "jsstring \<Rightarrow> regex \<Rightarrow> replacement \<Rightarrow> jsstring" where
  "replace s p r = replace_from p r s 0"

section \<open>The pattern registry\<close>

record rule =
  pattern :: regex
  replacement :: replacement
  description :: jsstring

abbreviation chr :: "char \<Rightarrow> class_atom" where
  "chr c \<equiv> Single (of_char c)"

abbreviation digits :: "nat \<Rightarrow> regex" where
  "digits k \<equiv> Quant k (Some k) (Class [Digit])"

abbreviation optional :: "regex \<Rightarrow> regex" where
  "optional r \<equiv> Quant 0 (Some 1) r"

text \<open>\<^verbatim>\<open>/\b\d{6}-?\d{4}\b/g\<close>\<close>

definition cpr_pattern :: regex where
  "cpr_pattern =
     Cat [WordBoundary, digits 6, optional (Class [chr CHR ''-'']), digits 4, WordBoundary]"

text \<open>\<^verbatim>\<open>/\b[A-Za-z0-9._%+-]+@[A-Za-z0-9.-]+\.[A-Z|a-z]{2,}\b/g\<close>\<close>

definition email_pattern :: regex where
  "email_pattern =
     Cat [WordBoundary,
          Quant 1 None (Class [Range (of_char CHR ''A'') (of_char CHR ''Z''),
                               Range (of_char CHR ''a'') (of_char CHR ''z''),
                               Range (of_char CHR ''0'') (of_char CHR ''9''),
                               chr CHR ''.'', chr CHR ''_'', chr CHR ''%'', chr CHR ''+'',
                               chr CHR ''-'']),
          Class [chr CHR ''@''],
          Quant 1 None (Class [Range (of_char CHR ''A'') (of_char CHR ''Z''),
                               Range (of_char CHR ''a'') (of_char CHR ''z''),
                               Range (of_char CHR ''0'') (of_char CHR ''9''),
                               chr CHR ''.'', chr CHR ''-'']),
          Class [chr CHR ''.''],
          Quant 2 None (Class [Range (of_char CHR ''A'') (of_char CHR ''Z''),
                               chr CHR ''|'',
                               Range (of_char CHR ''a'') (of_char CHR ''z'')]),
          WordBoundary]"

text \<open>\<^verbatim>\<open>/\b(?:\+45\s?)?(?:\d{2}\s?\d{2}\s?\d{2}\s?\d{2}|\d{8})\b/g\<close>\<close>

definition phone_pattern :: regex where
  "phone_pattern =
     Cat [WordBoundary,
          optional (Cat [Class [chr CHR ''+''], Class [chr CHR ''4''], Class [chr CHR ''5''],
                         optional (Class [Space])]),
          Alt (Cat [digits 2, optional (Class [Space]), digits 2, optional (Class [Space]),
                    digits 2, optional (Class [Space]), digits 2])
              (digits 8),
          WordBoundary]"

text \<open>\<^verbatim>\<open>/\b\d{4}[\s-]?\d{4}[\s-]?\d{4}[\s-]?\d{4}\b/g\<close>\<close>

definition creditCard_pattern :: regex where
  "creditCard_pattern =
     Cat [WordBoundary,
          digits 4, optional (Class [Space, chr CHR ''-'']),
          digits 4, optional (Class [Space, chr CHR ''-'']),
          digits 4, optional (Class [Space, chr CHR ''-'']),
          digits 4,
          WordBoundary]"

text \<open>\<^verbatim>\<open>/\b\d{3}-\d{2}-\d{4}\b/g\<close>\<close>

definition ssn_pattern :: regex where
  "ssn_pattern =
     Cat [WordBoundary, digits 3, Class [chr CHR ''-''], digits 2, Class [chr CHR ''-''],
          digits 4, WordBoundary]"

text \<open>\<open>s.split(sep)\<close> for a separator of one code unit.\<close>

fun split :: "jsstring \<Rightarrow> code_unit \<Rightarrow> jsstring list" where
  "split [] sep = [[]]"
| "split (c # cs) sep =
     (if c = sep then [] # split cs sep
      else case split cs sep of [] \<Rightarrow> [[c]] | part # parts \<Rightarrow> (c # part) # parts)"

text \<open>
  The replacement function of the email rule. \<open>parts[0]\<close> always exists; string
  concatenation turns a missing \<open>parts[1]\<close> into the text \<open>undefined\<close>.
\<close>

definition email_replacement :: "jsstring \<Rightarrow> jsstring" where
  "email_replacement match =
     (let parts = split match (of_char CHR ''@'')
      in substring (parts ! 0) 0 2 @ js ''***@'' @
         (if 1 < length parts then parts ! 1 else js ''undefined''))"

text \<open>\<open>PII_PATTERNS\<close>, in the order of its keys, which is the order \<open>Object.keys\<close> returns.\<close>

definition PII_PATTERNS :: "(jsstring \<times> rule) list" where
  "PII_PATTERNS =
     [(js ''cpr'',
         \<lparr>pattern = cpr_pattern, replacement = Constant (js ''******-****''),
          description = js ''Danish CPR number''\<rparr>),
      (js ''email'',
         \<lparr>pattern = email_pattern, replacement = Computed email_replacement,
          description = js ''Email address''\<rparr>),
      (js ''phone'',
         \<lparr>pattern = phone_pattern, replacement = Constant (js ''** ** ** **''),
          description = js ''Phone number''\<rparr>),
      (js ''creditCard'',
         \<lparr>pattern = creditCard_pattern, replacement = Constant (js ''**** **** **** ****''),
          description = js ''Credit card number''\<rparr>),
      (js ''ssn'',
         \<lparr>pattern = ssn_pattern, replacement = Constant (js ''***-**-****''),
          description = js ''Social security number''\<rparr>)]"

section \<open>The masking engine\<close>

text \<open>
  \<open>maskString\<close>: every rule whose flag in \<open>config\<close> is not the value \<open>false\<close>
  (\<open>config[patternKey] !== false\<close>) is applied, in the order of the registry's keys.
\<close>

fun maskString :: "jsvalue \<Rightarrow> properties \<Rightarrow> jsvalue" where
  "maskString (JString v) config =
     JString (fold (\<lambda>(patternKey, rule) maskedValue.
                if get_property config patternKey \<noteq> JBool False
                then replace maskedValue (pattern rule) (replacement rule)
                else maskedValue) PII_PATTERNS v)"
| "maskString v config = v"

text \<open>
  The results of the calls of a callback, one per element and in order, when none of them
  throws, and the first error otherwise (\<open>obj.map(item => ...)\<close>).
\<close>

fun all_results :: "('e + 'a) list \<Rightarrow> 'e + 'a list" where
  "all_results [] = Inr []"
| "all_results (r # rs) =
     (case r of
        Inl e \<Rightarrow> Inl e
      | Inr v \<Rightarrow> (case all_results rs of Inl e \<Rightarrow> Inl e | Inr vs \<Rightarrow> Inr (v # vs)))"

text \<open>
  \<open>maskObject\<close>: the branches in the order of the source. For an object (\<open>typeof obj ===
  'object'\<close>, plain or not), \<open>Object.entries(obj)\<close> reads the properties, \<open>masked\<close> starts as \<open>{}\<close>
  and receives \<open>masked[key] = maskObject(value, config)\<close> for each entry; an error thrown on the
  way ends the call.
\<close>

fun maskObject :: "jsvalue \<Rightarrow> properties \<Rightarrow> jserror + jsvalue" where
  "maskObject JNull config = Inr JNull"
| "maskObject JUndefined config = Inr JUndefined"
| "maskObject (JArray items) config =
     (case all_results (map (\<lambda>item. maskObject item config) items) of
        Inl e \<Rightarrow> Inl e
      | Inr masked \<Rightarrow> Inr (JArray masked))"
| "maskObject (JObject entries) config =
     (case fold (\<lambda>(key, v) state.
             case state of
               Inl e \<Rightarrow> Inl e
             | Inr masked \<Rightarrow>
                 (case maskObject v config of
                    Inl e \<Rightarrow> Inl e
                  | Inr m \<Rightarrow> Inr (set_property masked key m))) entries (Inr []) of
        Inl e \<Rightarrow> Inl e
      | Inr masked \<Rightarrow> Inr (JObject masked))"
| "maskObject (JHost (Inl e)) config = Inl e"
| "maskObject (JHost (Inr entries)) config =
     (case fold (\<lambda>(key, v) state.
             case state of
               Inl e \<Rightarrow> Inl e
             | Inr masked \<Rightarrow>
                 (case maskObject v config of
                    Inl e \<Rightarrow> Inl e
                  | Inr m \<Rightarrow> Inr (set_property masked key m))) entries (Inr []) of
        Inl e \<Rightarrow> Inl e
      | Inr masked \<Rightarrow> Inr (JObject masked))"
| "maskObject (JString s) config = Inr (maskString (JString s) config)"
| "maskObject (JBool b) config = Inr (JBool b)"
| "maskObject (JNumber n) config = Inr (JNumber n)"
| "maskObject JFunction config = Inr JFunction"

text \<open>
  \<open>maskPII(results, config = {})\<close>. An omitted argument is \<open>undefined\<close> and gets the default
  \<open>{}\<close>. Reading \<open>config.enabled\<close> throws a TypeError when \<open>config\<close> is \<open>null\<close>, gives the own
  property of an object, throws what a host object throws, and is \<open>undefined\<close> for a boolean, a
  number, a string, an array or a function.
\<close>

definition maskPII :: "jsvalue \<Rightarrow> jsvalue \<Rightarrow> jserror + jsvalue" where
  "maskPII results config =
     (case (if config = JUndefined then JObject [] else config) of
        JNull \<Rightarrow> Inl TypeError
      | JObject props \<Rightarrow>
          if \<not> truthy (get_property props (js ''enabled'')) then Inr results
          else maskObject results props
      | JHost (Inl e) \<Rightarrow> Inl e
      | JHost (Inr props) \<Rightarrow>
          if \<not> truthy (get_property props (js ''enabled'')) then Inr results
          else maskObject results props
      | _ \<Rightarrow> Inr results)"

definition getDefaultMaskingConfig :: jsvalue where
  "getDefaultMaskingConfig =
     JObject [(js ''enabled'', JBool False), (js ''cpr'', JBool True), (js ''email'', JBool True),
              (js ''phone'', JBool True), (js ''creditCard'', JBool True), (js ''ssn'', JBool True)]"

text \<open>
  \<open>getAvailablePatterns\<close>: \<open>example\<close> is the rule's \<open>replacement\<close> as it is, a string or a
  function.
\<close>

fun replacement_value :: "replacement \<Rightarrow> jsvalue" where
  "replacement_value (Constant p) = JString p"
| "replacement_value (Computed f) = JFunction"

definition getAvailablePatterns :: jsvalue where
  "getAvailablePatterns =
     JArray (map (\<lambda>(key, v).
               JObject [(js ''name'', JString key),
                        (js ''description'', JString (description v)),
                        (js ''example'', replacement_value (replacement v))]) PII_PATTERNS)"

section \<open>Auxiliary definitions for the statements\<close>

text \<open>The rules of a list applied one after the other, each by \<open>replace\<close>.\<close>

definition apply_rules :: "(jsstring \<times> rule) list \<Rightarrow> jsstring \<Rightarrow> jsstring" where
  "apply_rules rules s =
     fold (\<lambda>(key, rule) acc. replace acc (pattern rule) (replacement rule)) rules s"

text \<open>\<open>value[i]\<close> and \<open>value[key]\<close> are read through the elements and the properties.\<close>

fun elements :: "jsvalue \<Rightarrow> jsvalue list" where
  "elements (JArray items) = items"
| "elements v = []"

fun member :: "jsvalue \<Rightarrow> jsstring \<Rightarrow> jsvalue" where
  "member (JObject props) key = get_property props key"
| "member v key = JUndefined"

text \<open>
  The configuration \<open>config.js\<close> builds when \<open>PII_MASKING_ENABLED\<close> is \<open>true\<close> and no rule is
  switched off: the gate and all five flags are \<open>true\<close>.
\<close>

definition all_enabled :: jsvalue where
  "all_enabled =
     JObject [(js ''enabled'', JBool True), (js ''cpr'', JBool True), (js ''email'', JBool True),
              (js ''phone'', JBool True), (js ''creditCard'', JBool True), (js ''ssn'', JBool True)]"

text \<open>
  The string leaves of a value.
\<close>

fun strings_of :: "jsvalue \<Rightarrow> jsstring set" where
  "strings_of (JString s) = {s}"
| "strings_of (JArray items) = (\<Union>item \<in> set items. strings_of item)"
| "strings_of (JObject entries) = (\<Union>(key, v) \<in> set entries. strings_of v)"
| "strings_of (JHost (Inr entries)) = (\<Union>(key, v) \<in> set entries. strings_of v)"
| "strings_of v = {}"

text \<open>
  A plain value: at every object the keys are distinct, as the keys of an object are, and none
  is \<open>__proto__\<close>.
\<close>

fun plain :: "jsvalue \<Rightarrow> bool" where
  "plain (JArray items) = (\<forall>item \<in> set items. plain item)"
| "plain (JObject entries) =
     (distinct (map fst entries) \<and> js ''__proto__'' \<notin> fst ` set entries \<and>
      (\<forall>(key, v) \<in> set entries. plain v))"
| "plain JFunction = False"
| "plain (JHost h) = False"
| "plain v = True"

text \<open>The shape of a value: the value with every string leaf emptied.\<close>

fun skeleton :: "jsvalue \<Rightarrow> jsvalue" where
  "skeleton (JString s) = JString []"
| "skeleton (JArray items) = JArray (map skeleton items)"
| "skeleton (JObject entries) = JObject (map (\<lambda>(key, v). (key, skeleton v)) entries)"
| "skeleton v = v"

text \<open>
  The values of the spec's Value union: no function and no host object at any node.
\<close>

fun in_union :: "jsvalue \<Rightarrow> bool" where
  "in_union (JArray items) = (\<forall>item \<in> set items. in_union item)"
| "in_union (JObject entries) = (\<forall>(key, v) \<in> set entries. in_union v)"
| "in_union JFunction = False"
| "in_union (JHost h) = False"
| "in_union v = True"

text \<open>
  The loop of \<open>maskObject\<close> over the entries of an object, with \<open>g\<close> for the recursive call.
\<close>

definition copy_entries ::
  "(jsvalue \<Rightarrow> jserror + jsvalue) \<Rightarrow> properties \<Rightarrow> jserror + properties \<Rightarrow> jserror + properties"
  where
  "copy_entries g entries start =
     fold (\<lambda>(key, v) state.
        case state of
          Inl e \<Rightarrow> Inl e
        | Inr masked \<Rightarrow>
            (case g v of Inl e \<Rightarrow> Inl e | Inr m \<Rightarrow> Inr (set_property masked key m)))
       entries start"

text \<open>
  The assertion \<open>\b\<close> at index \<open>i\<close>: exactly one of the code units before and at \<open>i\<close> is a word
  character.
\<close>

definition boundary :: "jsstring \<Rightarrow> nat \<Rightarrow> bool" where
  "boundary s i = (word_at s (int i - 1) \<noteq> word_at s (int i))"

text \<open>
  A lower bound on the length of every match of a pattern.
\<close>

fun min_length :: "regex \<Rightarrow> nat" where
  "min_length (Class atoms) = 1"
| "min_length WordBoundary = 0"
| "min_length (Cat rs) = sum_list (map min_length rs)"
| "min_length (Alt r1 r2) = min (min_length r1) (min_length r2)"
| "min_length (Quant mn mx r) =
     (case mx of None \<Rightarrow> mn | Some k \<Rightarrow> min mn k) * min_length r"

text \<open>
  Every code unit a pattern can consume satisfies \<open>P\<close>.
\<close>

fun regex_chars :: "(code_unit \<Rightarrow> bool) \<Rightarrow> regex \<Rightarrow> bool" where
  "regex_chars P (Class atoms) = (\<forall>c. class_matches atoms c \<longrightarrow> P c)"
| "regex_chars P WordBoundary = True"
| "regex_chars P (Cat rs) = (\<forall>r \<in> set rs. regex_chars P r)"
| "regex_chars P (Alt r1 r2) = (regex_chars P r1 \<and> regex_chars P r2)"
| "regex_chars P (Quant mn mx r) = regex_chars P r"

text \<open>
  Two strings agree on a window of \<open>n\<close> code units, at \<open>j\<close> in \<open>t\<close> and at \<open>i\<close> in \<open>s\<close>, and on the word
  boundaries at the indices of the window.
\<close>

definition agree :: "jsstring \<Rightarrow> nat \<Rightarrow> jsstring \<Rightarrow> nat \<Rightarrow> nat \<Rightarrow> bool" where
  "agree t j s i n =
     (j + n \<le> length t \<and> i + n \<le> length s \<and> (\<forall>k<n. t ! (j + k) = s ! (i + k)) \<and>
      (\<forall>k\<le>n. boundary t (j + k) = boundary s (i + k)))"

text \<open>
  A pattern is guarded when each of its matches is not empty, starts and ends at a word
  boundary and holds no asterisk (code unit \<open>0x2A\<close>).
\<close>

definition guarded :: "regex \<Rightarrow> bool" where
  "guarded p =
     (\<forall>s i e. e \<in> set (matcher p s i) \<longrightarrow>
        i < e \<and> boundary s i \<and> boundary s e \<and> (\<forall>k. i \<le> k \<and> k < e \<longrightarrow> s ! k \<noteq> 0x2A))"

text \<open>
  A match seen without its string: \<open>accepts p a w b\<close> says that \<open>p\<close> matches the code units \<open>w\<close>
  when the code unit before them is a word character or not (\<open>a\<close>) and likewise the one after
  them (\<open>b\<close>).
\<close>

definition pad :: "bool \<Rightarrow> jsstring" where
  "pad a = (if a then [0x61] else [])"

definition accepts :: "regex \<Rightarrow> bool \<Rightarrow> jsstring \<Rightarrow> bool \<Rightarrow> bool" where
  "accepts p a w b =
     (length (pad a) + length w \<in> set (matcher p (pad a @ w @ pad b) (length (pad a))))"

text \<open>
  A placeholder is framed when it starts with an asterisk and holds no word character.
\<close>

definition framed :: "jsstring \<Rightarrow> bool" where
  "framed P = (P \<noteq> [] \<and> hd P = 0x2A \<and> (\<forall>c \<in> set P. \<not> is_word_char c))"

text \<open>
  Whether a string starts with a word character, and whether the text \<open>x\<close> ends with one, where
  \<open>a\<close> answers for the empty \<open>x\<close>.
\<close>

definition first_word :: "jsstring \<Rightarrow> bool" where
  "first_word y = (y \<noteq> [] \<and> is_word_char (hd y))"

definition left_word :: "bool \<Rightarrow> jsstring \<Rightarrow> bool" where
  "left_word a x = (if x = [] then a else is_word_char (last x))"

text \<open>
  No match of the pattern starts anywhere in the string.
\<close>

definition unmatched :: "regex \<Rightarrow> jsstring \<Rightarrow> bool" where
  "unmatched p s = (\<forall>i. matcher p s i = [])"

text \<open>
  The class of the local part of the email pattern, and the part of the pattern behind the
  \<open>@\<close>.
\<close>

definition local_class :: "class_atom list" where
  "local_class =
     [Range (of_char CHR ''A'') (of_char CHR ''Z''), Range (of_char CHR ''a'') (of_char CHR ''z''),
      Range (of_char CHR ''0'') (of_char CHR ''9''),
      chr CHR ''.'', chr CHR ''_'', chr CHR ''%'', chr CHR ''+'', chr CHR ''-'']"

definition email_tail :: regex where
  "email_tail =
     Cat [Quant 1 None (Class [Range (of_char CHR ''A'') (of_char CHR ''Z''),
                               Range (of_char CHR ''a'') (of_char CHR ''z''),
                               Range (of_char CHR ''0'') (of_char CHR ''9''),
                               chr CHR ''.'', chr CHR ''-'']),
          Class [chr CHR ''.''],
          Quant 2 None (Class [Range (of_char CHR ''A'') (of_char CHR ''Z''),
                               chr CHR ''|'',
                               Range (of_char CHR ''a'') (of_char CHR ''z'')]),
          WordBoundary]"

section \<open>Evaluation\<close>

text \<open>
  The recursive equations of \<open>repeat_matcher\<close> and \<open>replace_from\<close> are unfolded on demand only.
\<close>

declare repeat_matcher.simps [simp del] replace_from.simps [simp del]

lemmas evaluation =
  repeat_matcher.simps replace_from.simps
  cpr_pattern_def email_pattern_def phone_pattern_def creditCard_pattern_def ssn_pattern_def
  PII_PATTERNS_def js_def Let_def word_at_def is_word_char_def class_matches_def white_space_def
  replace_def get_property_def set_property_def substring_def email_replacement_def maskPII_def

section \<open>Shape of the result (C1)\<close>

subsection \<open>The loop over the entries of an object\<close>

lemma update_fresh: "k \<notin> fst ` set al \<Longrightarrow> AList.update k v al = al @ [(k, v)]"
  by (induction al) auto

lemma set_property_keys:
  "fst ` set (set_property m k v) \<subseteq> insert k (fst ` set m)"
  by (auto simp add: set_property_def dom_update)

lemma set_property_no_proto:
  "js ''__proto__'' \<notin> fst ` set m \<Longrightarrow> js ''__proto__'' \<notin> fst ` set (set_property m k v)"
  by (auto simp add: set_property_def dom_update)

lemma set_property_distinct:
  "distinct (map fst m) \<Longrightarrow> distinct (map fst (set_property m k v))"
  by (simp add: set_property_def distinct_update)

lemma set_property_values:
  "(k', v') \<in> set (set_property m k v) \<Longrightarrow> (k', v') \<in> set m \<or> v' = v"
  unfolding set_property_def
  by (induction m) (auto split: if_splits)

lemma fold_set_property_invariant:
  assumes "distinct (map fst acc)" and "js ''__proto__'' \<notin> fst ` set acc"
    and "\<forall>(k, v) \<in> set acc. P v" and "\<forall>(k, v) \<in> set entries. P (f v)"
  shows "distinct (map fst (fold (\<lambda>(key, v) masked. set_property masked key (f v)) entries acc))
       \<and> js ''__proto__'' \<notin> fst ` set (fold (\<lambda>(key, v) masked. set_property masked key (f v)) entries acc)
       \<and> (\<forall>(k, v) \<in> set (fold (\<lambda>(key, v) masked. set_property masked key (f v)) entries acc). P v)"
  using assms
proof (induction entries arbitrary: acc)
  case Nil
  then show ?case by simp
next
  case (Cons e entries)
  obtain k v where e: "e = (k, v)" by (cases e)
  have 1: "distinct (map fst (set_property acc k (f v)))"
    using Cons.prems(1) by (rule set_property_distinct)
  have 2: "js ''__proto__'' \<notin> fst ` set (set_property acc k (f v))"
    using Cons.prems(2) by (rule set_property_no_proto)
  have 3: "\<forall>(k', v') \<in> set (set_property acc k (f v)). P v'"
    using Cons.prems(3,4) e by (auto dest: set_property_values)
  have 4: "\<forall>(k, v) \<in> set entries. P (f v)"
    using Cons.prems(4) by simp
  from Cons.IH [OF 1 2 3 4] show ?case by (simp add: e)
qed

lemma fold_set_property_map:
  assumes "distinct (map fst entries)" and "js ''__proto__'' \<notin> fst ` set entries"
    and "fst ` set entries \<inter> fst ` set acc = {}"
  shows "fold (\<lambda>(key, v) masked. set_property masked key (f v)) entries acc
           = acc @ map (\<lambda>(key, v). (key, f v)) entries"
  using assms
proof (induction entries arbitrary: acc)
  case Nil
  then show ?case by simp
next
  case (Cons e entries)
  obtain k v where e: "e = (k, v)" by (cases e)
  have fresh: "k \<notin> fst ` set acc" using Cons.prems(3) e by auto
  have k: "k \<noteq> js ''__proto__''" using Cons.prems(2) e by auto
  have step: "set_property acc k (f v) = acc @ [(k, f v)]"
    using fresh k by (simp add: set_property_def update_fresh)
  have disj: "fst ` set entries \<inter> fst ` set (acc @ [(k, f v)]) = {}"
    using Cons.prems(1,3) e by auto
  have "fold (\<lambda>(key, v) masked. set_property masked key (f v)) entries (acc @ [(k, f v)])
          = (acc @ [(k, f v)]) @ map (\<lambda>(key, v). (key, f v)) entries"
    using Cons.prems(1,2) e disj by (intro Cons.IH) auto
  then show ?case by (simp add: e step)
qed

text \<open>
  The loop and the callback of \<open>map\<close> stop at the first error; when no call fails they copy
  every entry and every element.
\<close>

lemma maskObject_object:
  "maskObject (JObject entries) config
     = (case copy_entries (\<lambda>v. maskObject v config) entries (Inr []) of
          Inl e \<Rightarrow> Inl e | Inr masked \<Rightarrow> Inr (JObject masked))"
  "maskObject (JHost (Inr entries)) config
     = (case copy_entries (\<lambda>v. maskObject v config) entries (Inr []) of
          Inl e \<Rightarrow> Inl e | Inr masked \<Rightarrow> Inr (JObject masked))"
  by (simp_all add: copy_entries_def)

lemma copy_entries_error: "copy_entries g entries (Inl e) = Inl e"
  by (induction entries) (simp_all add: copy_entries_def case_prod_beta)

lemma copy_entries_Nil: "copy_entries g [] start = start"
  by (simp add: copy_entries_def)

lemma copy_entries_Cons:
  "copy_entries g ((key, v) # entries) (Inr masked)
     = (case g v of
          Inl e \<Rightarrow> Inl e
        | Inr m \<Rightarrow> copy_entries g entries (Inr (set_property masked key m)))"
  using copy_entries_error [of g entries] by (simp add: copy_entries_def split: sum.splits)

lemma copy_entries_total:
  "\<forall>(key, v) \<in> set entries. g v = Inr (f v)
   \<Longrightarrow> copy_entries g entries (Inr masked)
       = Inr (fold (\<lambda>(key, v) masked. set_property masked key (f v)) entries masked)"
proof (induction entries arbitrary: masked)
  case Nil
  then show ?case by (simp add: copy_entries_Nil)
next
  case (Cons entry entries)
  obtain key v where entry: "entry = (key, v)" by (cases entry)
  with Cons show ?case by (simp add: entry copy_entries_Cons)
qed

lemma copy_entries_success:
  "copy_entries g entries (Inr masked) = Inr result \<Longrightarrow> (key, v) \<in> set entries
   \<Longrightarrow> \<exists>m. g v = Inr m"
proof (induction entries arbitrary: masked)
  case Nil
  then show ?case by simp
next
  case (Cons entry entries)
  obtain key' v' where entry: "entry = (key', v')" by (cases entry)
  from Cons.prems(1) obtain m where m: "g v' = Inr m"
    by (cases "g v'") (simp_all add: entry copy_entries_Cons)
  show ?case
  proof (cases "(key, v) = (key', v')")
    case True
    with m show ?thesis by simp
  next
    case False
    with Cons.prems(2) entry have "(key, v) \<in> set entries" by auto
    moreover from Cons.prems(1)
    have "copy_entries g entries (Inr (set_property masked key' m)) = Inr result"
      by (simp add: entry copy_entries_Cons m)
    ultimately show ?thesis using Cons.IH by blast
  qed
qed

lemma all_results_total:
  "\<forall>x \<in> set xs. g x = Inr (f x) \<Longrightarrow> all_results (map g xs) = Inr (map f xs)"
  by (induction xs) simp_all

lemma all_results_success:
  "all_results (map g xs) = Inr ms \<Longrightarrow> x \<in> set xs \<Longrightarrow> \<exists>m. g x = Inr m"
  by (induction xs arbitrary: ms) (auto split: sum.splits)

text \<open>
  The entries of an object with distinct keys, none of them \<open>__proto__\<close>, are copied one by
  one, and the shape of a plain value is kept: the same variant at every node, the same
  elements in order, the same keys in order, and the leaves that are no strings unchanged.
\<close>

lemma maskObject_keeps_shape:
  "plain v \<Longrightarrow> \<exists>v'. maskObject v config = Inr v' \<and> skeleton v' = skeleton v"
proof (induction v config rule: maskObject.induct)
  case (3 items config)
  let ?g = "\<lambda>item. maskObject item config"
  have items: "\<forall>item \<in> set items. ?g item = Inr (projr (?g item))
                 \<and> skeleton (projr (?g item)) = skeleton item"
    using 3 by fastforce
  then have "all_results (map ?g items) = Inr (map (\<lambda>item. projr (?g item)) items)"
    by (intro all_results_total) simp
  moreover have "map (\<lambda>item. skeleton (projr (?g item))) items = map skeleton items"
    using items by (intro map_cong) simp_all
  ultimately show ?case by (simp add: comp_def)
next
  case (4 entries config)
  let ?g = "\<lambda>v. maskObject v config"
  have entries: "\<forall>(key, v) \<in> set entries. ?g v = Inr (projr (?g v))
                   \<and> skeleton (projr (?g v)) = skeleton v"
    using 4 by fastforce
  then have "\<forall>(key, v) \<in> set entries. ?g v = Inr (projr (?g v))" by fastforce
  from copy_entries_total [of entries ?g "\<lambda>v. projr (?g v)" "[]", OF this]
  have "copy_entries ?g entries (Inr [])
          = Inr (map (\<lambda>(key, v). (key, projr (?g v))) entries)"
    using "4.prems" fold_set_property_map [of entries "[]" "\<lambda>v. projr (?g v)"] by simp
  moreover have "map (\<lambda>(key, v). (key, skeleton (projr (?g v)))) entries
                   = map (\<lambda>(key, v). (key, skeleton v)) entries"
    using entries by (intro map_cong) auto
  ultimately show ?case
    by (simp add: maskObject_object comp_def case_prod_beta del: maskObject.simps)
qed simp_all

subsection \<open>The key that is lost\<close>

text \<open>
  Claim C1 says that \<open>maskPII(v, c)\<close> has the key set and key order of \<open>v\<close> at every mapping.
  The loop of \<open>maskObject\<close> copies each entry by \<open>masked[key] = ...\<close>, which creates no own
  property for the key \<open>__proto__\<close>: the value parsed from
  \<^verbatim>\<open>{"__proto__": "x", "a": 1}\<close> comes back with the single key \<open>a\<close>.
\<close>

theorem maskPII_drops_proto_key:
  "maskPII (JObject [(js ''__proto__'', JString (js ''x'')), (js ''a'', JNumber (Num 1))])
           all_enabled
     = Inr (JObject [(js ''a'', JNumber (Num 1))])"
  by (simp add: all_enabled_def evaluation)

section \<open>Examples of the documentation\<close>

text \<open>
  The examples of the README for the cpr and the email rule, and a number that looks like a
  telephone number and is no string.
\<close>

lemma documented_examples:
  "maskPII (JString (js ''123456-7890'')) all_enabled = Inr (JString (js ''******-****''))"
  "maskPII (JString (js ''john.doe@example.com'')) all_enabled
     = Inr (JString (js ''jo***@example.com''))"
  "maskPII (JObject [(js ''count'', JNumber (Num 12345678))]) all_enabled
     = Inr (JObject [(js ''count'', JNumber (Num 12345678))])"
  by (simp_all add: all_enabled_def evaluation)

section \<open>The rules on the documented inputs (C3, C4, C5)\<close>

text \<open>
  Claim C3 says that a credit-card number in four groups of four digits is replaced by the
  placeholder of the creditCard rule. The phone rule comes first in the registry and matches
  the space-separated groups two at a time, so that the number of the claim is replaced by two
  phone placeholders and the creditCard rule finds nothing. With the phone rule switched off
  the creditCard rule replaces the number as the claim says.
\<close>

theorem creditCard_with_spaces_masked_by_phone_rule:
  "maskPII (JString (js ''1234 5678 9012 3456'')) all_enabled
     = Inr (JString (js ''** ** ** ** ** ** ** **'')) \<and>
   maskPII (JString (js ''1234 5678 9012 3456''))
           (JObject [(js ''enabled'', JBool True), (js ''phone'', JBool False)])
     = Inr (JString (js ''**** **** **** ****''))"
  by (simp add: all_enabled_def evaluation)

text \<open>
  Claim C4 says that the whole of \<open>+45 12 34 56 78\<close> is replaced by the phone placeholder.
  The pattern starts with \<open>\b\<close>, and there is no word boundary before a \<open>+\<close> at the start of the
  string (or after a space): the match starts at \<open>45\<close> and takes eight digits from there, so
  that the \<open>+\<close> and the last two digits stay. Only behind a word character is the prefix part
  of the match.
\<close>

theorem phone_with_prefix_partly_masked:
  "maskPII (JString (js ''+45 12 34 56 78'')) all_enabled
     = Inr (JString (js ''+** ** ** ** 78'')) \<and>
   maskPII (JString (js ''tel+45 12 34 56 78'')) all_enabled
     = Inr (JString (js ''tel** ** ** **''))"
  by (simp add: all_enabled_def evaluation)

text \<open>
  Claim C5 says that the email rule matches exactly the strings whose top-level domain has two
  or more letters. The class \<^verbatim>\<open>[A-Z|a-z]\<close> of the pattern also contains the vertical bar: in
  \<open>a@b.c|d\<close> the only letters after the dot are \<open>c\<close> and, behind a bar, \<open>d\<close>, and the rule
  matches the whole string.
\<close>

theorem email_tld_accepts_vertical_bar:
  "maskPII (JString (js ''a@b.c|d'')) all_enabled = Inr (JString (js ''a***@b.c|d''))"
  by (simp add: all_enabled_def evaluation)

section \<open>Errors (C7)\<close>

text \<open>
  Claim C7 says that \<open>maskPII\<close> raises an error if and only if the value is outside the Value
  union. A function is outside the union, and \<open>maskPII\<close> returns it without an error.
\<close>

theorem function_value_is_not_rejected:
  "maskPII JFunction (JObject [(js ''enabled'', JBool True)]) = Inr JFunction"
  by (simp add: maskPII_def get_property_def)

text \<open>
  The source has no check of the shape of its input. What it raises is what reading a property
  throws: the TypeError of \<open>config.enabled\<close> for the configuration \<open>null\<close>, whatever the value,
  and the error of a host object whose properties cannot be read, at any depth of the value. A
  host object whose properties can be read is not rejected either; it comes back as a plain
  object.
\<close>

lemma maskPII_errors:
  "maskPII v JNull = Inl TypeError"
  "maskPII (JHost (Inl e)) (JObject [(js ''enabled'', JBool True)]) = Inl e"
  "maskPII (JArray [JNumber (Num 1), JObject [(js ''a'', JHost (Inl e))]])
           (JObject [(js ''enabled'', JBool True)]) = Inl e"
  "maskPII (JHost (Inr [(js ''a'', JNumber (Num 1))])) (JObject [(js ''enabled'', JBool True)])
     = Inr (JObject [(js ''a'', JNumber (Num 1))])"
  by (simp_all add: maskPII_def get_property_def set_property_def js_def)

text \<open>
  On a value of the Value union every call of \<open>maskObject\<close> returns.
\<close>

lemma maskObject_in_union: "in_union v \<Longrightarrow> \<exists>v'. maskObject v config = Inr v'"
proof (induction v config rule: maskObject.induct)
  case (3 items config)
  let ?g = "\<lambda>item. maskObject item config"
  have "\<forall>item \<in> set items. ?g item = Inr (projr (?g item))"
    using 3 by fastforce
  from all_results_total [of items ?g "\<lambda>item. projr (?g item)", OF this]
  show ?case by simp
next
  case (4 entries config)
  let ?g = "\<lambda>v. maskObject v config"
  have "\<forall>(key, v) \<in> set entries. ?g v = Inr (projr (?g v))"
    using 4 by fastforce
  from copy_entries_total [of entries ?g "\<lambda>v. projr (?g v)", OF this]
  show ?case by (simp add: maskObject_object del: maskObject.simps)
qed simp_all

text \<open>
  Claim C7 as amended: \<open>maskPII\<close> has no error for the shape of its input. For every value of
  the Value union (a finite tree of arrays and objects over \<open>null\<close>, \<open>undefined\<close>, booleans,
  numbers and strings) and every configuration of the union other than \<open>null\<close>, \<open>maskPII\<close>
  returns a result and raises no error.
\<close>

theorem maskPII_never_fails_on_values:
  "in_union v \<Longrightarrow> in_union config \<Longrightarrow> config \<noteq> JNull \<Longrightarrow> \<exists>r. maskPII v config = Inr r"
  using maskObject_in_union [of v]
  by (cases config) (simp_all add: maskPII_def)

text \<open>
  A record with a string, a number, \<open>null\<close> and a nested array, under the configuration with
  all rules on.
\<close>

theorem maskPII_never_fails_on_values_witness:
  "\<exists>r. maskPII (JObject [(js ''mail'', JString (js ''john.doe@example.com'')),
                         (js ''n'', JNumber (Num 12345678)),
                         (js ''tags'', JArray [JNull, JBool True, JString (js ''123456-7890'')])])
                all_enabled = Inr r"
proof -
  have "in_union (JObject [(js ''mail'', JString (js ''john.doe@example.com'')),
                           (js ''n'', JNumber (Num 12345678)),
                           (js ''tags'', JArray [JNull, JBool True, JString (js ''123456-7890'')])])"
    by simp
  moreover have "in_union all_enabled" "all_enabled \<noteq> JNull"
    by (simp_all add: all_enabled_def)
  ultimately show ?thesis by (rule maskPII_never_fails_on_values)
qed

section \<open>The documentation view (C10)\<close>

text \<open>
  The five records of \<open>getAvailablePatterns\<close>, in the order of the registry. The source takes
  \<open>example\<close> from the rule's \<open>replacement\<close>.
\<close>

lemma getAvailablePatterns_records:
  "getAvailablePatterns =
     JArray
       [JObject [(js ''name'', JString (js ''cpr'')),
                 (js ''description'', JString (js ''Danish CPR number'')),
                 (js ''example'', JString (js ''******-****''))],
        JObject [(js ''name'', JString (js ''email'')),
                 (js ''description'', JString (js ''Email address'')),
                 (js ''example'', JFunction)],
        JObject [(js ''name'', JString (js ''phone'')),
                 (js ''description'', JString (js ''Phone number'')),
                 (js ''example'', JString (js ''** ** ** **''))],
        JObject [(js ''name'', JString (js ''creditCard'')),
                 (js ''description'', JString (js ''Credit card number'')),
                 (js ''example'', JString (js ''**** **** **** ****''))],
        JObject [(js ''name'', JString (js ''ssn'')),
                 (js ''description'', JString (js ''Social security number'')),
                 (js ''example'', JString (js ''***-**-****''))]]"
  by (simp add: getAvailablePatterns_def PII_PATTERNS_def)

text \<open>
  Claim C10 says that each record of \<open>getAvailablePatterns\<close> has a placeholder-example string.
  The records of cpr, phone, creditCard and ssn have their placeholder under \<open>example\<close>. The
  one of the email rule (index 1) has a function there, the replacement function of the rule,
  and no string.
\<close>

theorem email_example_is_a_function:
  "member (elements getAvailablePatterns ! 1) (js ''name'') = JString (js ''email'') \<and>
   member (elements getAvailablePatterns ! 1) (js ''example'') = JFunction"
  by (simp add: getAvailablePatterns_def PII_PATTERNS_def get_property_def js_def)

section \<open>The top-level gate (C6, C9)\<close>

text \<open>
  Claim C6: for every value \<open>v\<close> and every configuration whose \<open>enabled\<close> is \<open>false\<close>,
  whatever its per-rule flags, \<open>maskPII\<close> returns \<open>v\<close> itself.
\<close>

theorem maskPII_disabled_identity:
  "get_property config (js ''enabled'') = JBool False \<Longrightarrow> maskPII v (JObject config) = Inr v"
  by (simp add: maskPII_def)

text \<open>The default configuration, whose gate is \<open>false\<close> and whose rule flags are all \<open>true\<close>.\<close>

theorem maskPII_disabled_identity_witness:
  "maskPII (JArray [JString (js ''john.doe@example.com''), JNumber (Num 12345678)])
           getDefaultMaskingConfig
     = Inr (JArray [JString (js ''john.doe@example.com''), JNumber (Num 12345678)])"
proof -
  have gate: "get_property
                [(js ''enabled'', JBool False), (js ''cpr'', JBool True), (js ''email'', JBool True),
                 (js ''phone'', JBool True), (js ''creditCard'', JBool True), (js ''ssn'', JBool True)]
                (js ''enabled'') = JBool False"
    by (simp add: get_property_def)
  show ?thesis
    unfolding getDefaultMaskingConfig_def by (rule maskPII_disabled_identity [OF gate])
qed

text \<open>
  Claim C9: \<open>maskPII\<close> returns the input value itself when the configuration argument is
  omitted (\<open>undefined\<close>, which takes the default \<open>{}\<close>), when the configuration is the empty
  object, and whenever \<open>enabled\<close> is absent or falsy (\<open>undefined\<close>, \<open>null\<close>, \<open>false\<close>, \<open>0\<close>,
  \<open>NaN\<close> or the empty string); the gate is tested by truthiness, and with a truthy \<open>enabled\<close>
  the result is that of \<open>maskObject\<close>.
\<close>

theorem maskPII_gate_truthiness:
  "maskPII v JUndefined = Inr v \<and>
   maskPII v (JObject []) = Inr v \<and>
   (get_property config (js ''enabled'')
      \<in> {JUndefined, JNull, JBool False, JNumber (Num 0), JNumber NaN, JString []}
    \<longrightarrow> maskPII v (JObject config) = Inr v) \<and>
   (truthy (get_property config (js ''enabled''))
    \<longrightarrow> maskPII v (JObject config) = maskObject v config)"
  by (auto simp add: maskPII_def get_property_def)

text \<open>The number \<open>0\<close> closes the gate and the number \<open>1\<close> opens it.\<close>

theorem maskPII_gate_truthiness_witness:
  "maskPII (JString (js ''123456-7890'')) (JObject [(js ''enabled'', JNumber (Num 0))])
     = Inr (JString (js ''123456-7890'')) \<and>
   maskPII (JString (js ''123456-7890'')) (JObject [(js ''enabled'', JNumber (Num 1))])
     = Inr (JString (js ''******-****''))"
proof -
  have off: "get_property [(js ''enabled'', JNumber (Num 0))] (js ''enabled'')
               \<in> {JUndefined, JNull, JBool False, JNumber (Num 0), JNumber NaN, JString []}"
    by (simp add: get_property_def)
  have on: "truthy (get_property [(js ''enabled'', JNumber (Num 1))] (js ''enabled''))"
    by (simp add: get_property_def)
  have masked: "maskObject (JString (js ''123456-7890'')) [(js ''enabled'', JNumber (Num 1))]
                  = Inr (JString (js ''******-****''))"
    by (simp add: evaluation)
  from maskPII_gate_truthiness [of "JString (js ''123456-7890'')" "[(js ''enabled'', JNumber (Num 0))]"]
       maskPII_gate_truthiness [of "JString (js ''123456-7890'')" "[(js ''enabled'', JNumber (Num 1))]"]
       off on masked
  show ?thesis by metis
qed

section \<open>The per-rule flags (C8)\<close>

lemma fold_rules_filter:
  "fold (\<lambda>(k, r) acc. if P k then f r acc else acc) rules s
     = fold (\<lambda>(k, r) acc. f r acc) (filter (\<lambda>(k, r). P k) rules) s"
  by (induction rules arbitrary: s) auto

text \<open>
  Claim C8: when the gate is open, the rules applied to a string are exactly the rules of the
  registry whose flag is not the value \<open>false\<close> (an absent flag or a flag that is no boolean
  counts as enabled), in registry order.
\<close>

theorem rule_applied_unless_flag_false:
  "truthy (get_property config (js ''enabled'')) \<Longrightarrow>
   maskPII (JString s) (JObject config)
     = Inr (JString (apply_rules
         (filter (\<lambda>(key, rule). get_property config key \<noteq> JBool False) PII_PATTERNS) s))"
  by (simp add: maskPII_def apply_rules_def
        fold_rules_filter [where P = "\<lambda>k. get_property config k \<noteq> JBool False"
                             and f = "\<lambda>r acc. replace acc (pattern r) (replacement r)"])

text \<open>
  With \<open>ssn = false\<close> the SSN stays and the email rule still applies; with the flag \<open>ssn = 0\<close>,
  which is no boolean, the ssn rule applies.
\<close>

theorem rule_applied_unless_flag_false_witness:
  "maskPII (JString (js ''123-45-6789 a@b.dk''))
           (JObject [(js ''enabled'', JBool True), (js ''ssn'', JBool False)])
     = Inr (JString (js ''123-45-6789 a***@b.dk'')) \<and>
   maskPII (JString (js ''123-45-6789 a@b.dk''))
           (JObject [(js ''enabled'', JBool True), (js ''ssn'', JNumber (Num 0))])
     = Inr (JString (js ''***-**-**** a***@b.dk''))"
proof -
  have gate_off: "truthy (get_property [(js ''enabled'', JBool True), (js ''ssn'', JBool False)]
                            (js ''enabled''))"
    by (simp add: get_property_def)
  have gate_zero: "truthy (get_property [(js ''enabled'', JBool True), (js ''ssn'', JNumber (Num 0))]
                             (js ''enabled''))"
    by (simp add: get_property_def)
  have rules_off:
    "apply_rules
       (filter (\<lambda>(key, rule).
          get_property [(js ''enabled'', JBool True), (js ''ssn'', JBool False)] key
            \<noteq> JBool False) PII_PATTERNS)
       (js ''123-45-6789 a@b.dk'')
     = js ''123-45-6789 a***@b.dk''"
    by (simp add: apply_rules_def evaluation)
  have rules_zero:
    "apply_rules
       (filter (\<lambda>(key, rule).
          get_property [(js ''enabled'', JBool True), (js ''ssn'', JNumber (Num 0))] key
            \<noteq> JBool False) PII_PATTERNS)
       (js ''123-45-6789 a@b.dk'')
     = js ''***-**-**** a***@b.dk''"
    by (simp add: apply_rules_def evaluation)
  from rule_applied_unless_flag_false [OF gate_off, of "js ''123-45-6789 a@b.dk''"]
       rule_applied_unless_flag_false [OF gate_zero, of "js ''123-45-6789 a@b.dk''"]
  show ?thesis by (simp only: rules_off rules_zero)
qed

section \<open>Masking twice (C2)\<close>

text \<open>
  Claim C2 says that masking a masked value again changes nothing. The email rule keeps the
  text after the \<open>@\<close> of a match; in \<open>a@b.comx@y.org\<close> the first pass matches \<open>a@b.comx\<close>, and the
  kept \<open>b.comx\<close> stands before the second \<open>@\<close>, where the second pass finds the new match
  \<open>b.comx@y.org\<close>.
\<close>

theorem remasking_changes_email_residue:
  "maskPII (JString (js ''a@b.comx@y.org'')) all_enabled
     = Inr (JString (js ''a***@b.comx@y.org'')) \<and>
   maskPII (JString (js ''a***@b.comx@y.org'')) all_enabled
     = Inr (JString (js ''a***@b.***@y.org''))"
  by (simp add: all_enabled_def evaluation)

subsection \<open>Bounds and code units of a match\<close>

lemma matcher_WordBoundary: "matcher WordBoundary s i = (if boundary s i then [i] else [])"
  by (simp add: boundary_def)

lemma repeat_matcher_member:
  "e \<in> set (repeat_matcher m n mn mx i) \<longleftrightarrow>
     (if mx = Some 0 then e = i
      else (mn = 0 \<and> e = i) \<or>
           (\<exists>y \<in> set (m i). \<not> ((mn = 0 \<and> y = i) \<or> y < i \<or> n < y) \<and>
              e \<in> set (repeat_matcher m n (mn - 1) (map_option (\<lambda>k. k - 1) mx) y)))"
  by (subst repeat_matcher.simps) (auto simp add: Let_def)

lemma repeat_matcher_bounds:
  "e \<in> set (repeat_matcher m n mn mx i) \<Longrightarrow> i \<le> e \<and> (i \<le> n \<longrightarrow> e \<le> n)"
proof (induction m n mn mx i rule: repeat_matcher.induct)
  case (1 m n mn mx i)
  show ?case
  proof (cases "mx = Some 0")
    case True
    with "1.prems" show ?thesis by (simp add: repeat_matcher_member)
  next
    case False
    from "1.prems" False
    consider "e = i" | y where "y \<in> set (m i)" "\<not> ((mn = 0 \<and> y = i) \<or> y < i \<or> n < y)"
        "e \<in> set (repeat_matcher m n (mn - 1) (map_option (\<lambda>k. k - 1) mx) y)"
      by (subst (asm) repeat_matcher_member) auto
    then show ?thesis
    proof cases
      case 1
      then show ?thesis by simp
    next
      case 2
      from "1.IH" [OF False 2(1,2,3)] 2(2) show ?thesis by auto
    qed
  qed
qed

lemma repeat_matcher_min_length:
  "(\<And>i e. e \<in> set (m i) \<Longrightarrow> i + l \<le> e) \<Longrightarrow> e \<in> set (repeat_matcher m n mn mx i)
   \<Longrightarrow> i + (case mx of None \<Rightarrow> mn | Some k \<Rightarrow> min mn k) * l \<le> e"
proof (induction m n mn mx i rule: repeat_matcher.induct)
  case (1 m n mn mx i)
  show ?case
  proof (cases "mx = Some 0")
    case True
    with "1.prems" show ?thesis by (simp add: repeat_matcher_member)
  next
    case False
    from "1.prems"(2) False
    consider "mn = 0" "e = i"
      | y where "y \<in> set (m i)" "\<not> ((mn = 0 \<and> y = i) \<or> y < i \<or> n < y)"
        "e \<in> set (repeat_matcher m n (mn - 1) (map_option (\<lambda>k. k - 1) mx) y)"
      by (subst (asm) repeat_matcher_member) auto
    then show ?thesis
    proof cases
      case 1
      then show ?thesis by (simp split: option.splits)
    next
      case 2
      have step: "i + l \<le> y" using "1.prems"(1) 2(1) by simp
      have rest: "y + (case map_option (\<lambda>k. k - 1) mx of None \<Rightarrow> mn - 1
                        | Some k \<Rightarrow> min (mn - 1) k) * l \<le> e"
        using "1.IH" [OF False 2(1,2) "1.prems"(1) 2(3)] .
      have count: "(case mx of None \<Rightarrow> mn | Some k \<Rightarrow> min mn k)
                     \<le> (case map_option (\<lambda>k. k - 1) mx of None \<Rightarrow> mn - 1
                          | Some k \<Rightarrow> min (mn - 1) k) + 1"
        by (auto split: option.splits)
      have "(case mx of None \<Rightarrow> mn | Some k \<Rightarrow> min mn k) * l
              \<le> ((case map_option (\<lambda>k. k - 1) mx of None \<Rightarrow> mn - 1
                          | Some k \<Rightarrow> min (mn - 1) k) + 1) * l"
        using count by (rule mult_le_mono1)
      with step rest show ?thesis by (simp add: algebra_simps)
    qed
  qed
qed

lemma matcher_min_length: "e \<in> set (matcher r s i) \<Longrightarrow> i + min_length r \<le> e"
proof (induction r s i arbitrary: e rule: matcher.induct)
  case (1 atoms s i)
  then show ?case by (simp split: if_splits)
next
  case (2 s i)
  then show ?case by (simp split: if_splits)
next
  case (3 s i)
  then show ?case by simp
next
  case (4 r rs s i)
  from "4.prems" obtain y where y: "y \<in> set (matcher r s i)" "e \<in> set (matcher (Cat rs) s y)"
    by auto
  from "4.IH"(1) [OF y(1)] "4.IH"(2) [OF y(1) y(2)] show ?case by simp
next
  case (5 r1 r2 s i)
  then show ?case by fastforce
next
  case (6 mn mx r s i)
  from repeat_matcher_min_length [of "matcher r s" "min_length r", OF "6.IH"] "6.prems"
  show ?case by simp
qed

lemma matcher_lower: "e \<in> set (matcher r s i) \<Longrightarrow> i \<le> e"
  using matcher_min_length [of e r s i] by simp

lemma matcher_upper: "e \<in> set (matcher r s i) \<Longrightarrow> i \<le> length s \<Longrightarrow> e \<le> length s"
proof (induction r s i arbitrary: e rule: matcher.induct)
  case (1 atoms s i)
  then show ?case by (simp split: if_splits)
next
  case (2 s i)
  then show ?case by (simp split: if_splits)
next
  case (3 s i)
  then show ?case by simp
next
  case (4 r rs s i)
  from "4.prems" obtain y where y: "y \<in> set (matcher r s i)" "e \<in> set (matcher (Cat rs) s y)"
    by auto
  from "4.IH"(1) [OF y(1) "4.prems"(2)] "4.IH"(2) [OF y(1) y(2)] show ?case by simp
next
  case (5 r1 r2 s i)
  then show ?case by fastforce
next
  case (6 mn mx r s i)
  then show ?case using repeat_matcher_bounds [of e "matcher r s" "length s" mn mx i] by simp
qed

lemma repeat_matcher_chars:
  "(\<And>i e k. e \<in> set (m i) \<Longrightarrow> i \<le> k \<Longrightarrow> k < e \<Longrightarrow> Q k)
   \<Longrightarrow> e \<in> set (repeat_matcher m n mn mx i) \<Longrightarrow> i \<le> k \<Longrightarrow> k < e \<Longrightarrow> Q k"
proof (induction m n mn mx i rule: repeat_matcher.induct)
  case (1 m n mn mx i)
  show ?case
  proof (cases "mx = Some 0")
    case True
    with "1.prems" show ?thesis by (simp add: repeat_matcher_member)
  next
    case False
    from "1.prems"(2) False
    consider "e = i"
      | y where "y \<in> set (m i)" "\<not> ((mn = 0 \<and> y = i) \<or> y < i \<or> n < y)"
        "e \<in> set (repeat_matcher m n (mn - 1) (map_option (\<lambda>k. k - 1) mx) y)"
      by (subst (asm) repeat_matcher_member) auto
    then show ?thesis
    proof cases
      case 1
      with "1.prems"(3,4) show ?thesis by simp
    next
      case 2
      show ?thesis
      proof (cases "k < y")
        case True
        with "1.prems"(1) [OF 2(1) "1.prems"(3)] show ?thesis .
      next
        case False
        then have "y \<le> k" by simp
        from "1.IH" [OF \<open>mx \<noteq> Some 0\<close> 2(1,2) "1.prems"(1) 2(3) this "1.prems"(4)]
        show ?thesis .
      qed
    qed
  qed
qed

lemma matcher_chars:
  "regex_chars P r \<Longrightarrow> e \<in> set (matcher r s i) \<Longrightarrow> i \<le> k \<Longrightarrow> k < e \<Longrightarrow> P (s ! k)"
proof (induction r s i arbitrary: e k rule: matcher.induct)
  case (1 atoms s i)
  then show ?case by (auto split: if_splits simp add: le_less_Suc_eq)
next
  case (2 s i)
  then show ?case by (simp split: if_splits)
next
  case (3 s i)
  then show ?case by simp
next
  case (4 r rs s i)
  from "4.prems"(2) obtain y where y: "y \<in> set (matcher r s i)" "e \<in> set (matcher (Cat rs) s y)"
    by auto
  show ?case
  proof (cases "k < y")
    case True
    from "4.IH"(1) [OF _ y(1) "4.prems"(3) True] "4.prems"(1) show ?thesis by simp
  next
    case False
    then have "y \<le> k" by simp
    from "4.IH"(2) [OF y(1) _ y(2) this "4.prems"(4)] "4.prems"(1) show ?thesis by simp
  qed
next
  case (5 r1 r2 s i)
  then show ?case by fastforce
next
  case (6 mn mx r s i)
  have body: "\<And>i e k. e \<in> set (matcher r s i) \<Longrightarrow> i \<le> k \<Longrightarrow> k < e \<Longrightarrow> P (s ! k)"
    using "6.IH" "6.prems"(1) by simp
  from repeat_matcher_chars [of "matcher r s" "\<lambda>k. P (s ! k)", OF body] "6.prems"(2,3,4)
  show ?case by simp
qed

subsection \<open>A match depends on its window and the two boundaries only\<close>

lemma repeat_matcher_local:
  assumes body: "\<And>a b. a \<le> n \<Longrightarrow> b \<le> n \<Longrightarrow> j + b \<in> set (m (j + a)) \<Longrightarrow> i + b \<in> set (m' (i + a))"
    and lt: "j + n \<le> lt" and ls: "i + n \<le> ls"
  shows "a \<le> n \<Longrightarrow> b \<le> n \<Longrightarrow> j + b \<in> set (repeat_matcher m lt mn mx (j + a))
         \<Longrightarrow> i + b \<in> set (repeat_matcher m' ls mn mx (i + a))"
proof (induction "(n - a) + mn" arbitrary: a mn mx rule: less_induct)
  case less
  show ?case
  proof (cases "mx = Some 0")
    case True
    with less.prems show ?thesis by (simp add: repeat_matcher_member)
  next
    case False
    from less.prems(3) False
    consider "mn = 0" "b = a"
      | y where "y \<in> set (m (j + a))" "\<not> ((mn = 0 \<and> y = j + a) \<or> y < j + a \<or> lt < y)"
        "j + b \<in> set (repeat_matcher m lt (mn - 1) (map_option (\<lambda>k. k - 1) mx) y)"
      by (subst (asm) repeat_matcher_member) auto
    then show ?thesis
    proof cases
      case 1
      with False show ?thesis by (subst repeat_matcher_member) simp
    next
      case 2
      define a' where "a' = y - j"
      have y: "y = j + a'" using 2(2) by (simp add: a'_def)
      have "y \<le> j + b" using repeat_matcher_bounds [OF 2(3)] by simp
      then have a': "a \<le> a'" "a' \<le> b" "a' \<le> n" "mn = 0 \<longrightarrow> a' \<noteq> a"
        using 2(2) less.prems(2) by (auto simp add: y)
      have first: "i + a' \<in> set (m' (i + a))"
        using body [OF less.prems(1) a'(3)] 2(1) by (simp add: y)
      have "n - a' + (mn - 1) < n - a + mn"
        using a' less.prems(1) by (cases "mn = 0") auto
      from less.hyps [OF this a'(3) less.prems(2)] 2(3)
      have rest: "i + b \<in> set (repeat_matcher m' ls (mn - 1) (map_option (\<lambda>k. k - 1) mx) (i + a'))"
        by (simp add: y)
      have guard: "\<not> ((mn = 0 \<and> i + a' = i + a) \<or> i + a' < i + a \<or> ls < i + a')"
        using a' ls by auto
      from first rest guard
      have "\<exists>y \<in> set (m' (i + a)). \<not> ((mn = 0 \<and> y = i + a) \<or> y < i + a \<or> ls < y) \<and>
              i + b \<in> set (repeat_matcher m' ls (mn - 1) (map_option (\<lambda>k. k - 1) mx) y)"
        by blast
      with False show ?thesis
        by (subst repeat_matcher_member) simp
    qed
  qed
qed

lemma matcher_local:
  assumes agree: "agree t j s i n"
  shows "a \<le> n \<Longrightarrow> b \<le> n \<Longrightarrow> j + b \<in> set (matcher r t (j + a))
         \<Longrightarrow> i + b \<in> set (matcher r s (i + a))"
proof (induction r arbitrary: a b)
  case (Class atoms)
  from Class.prems(3) have *: "b = a + 1" "j + a < length t" "class_matches atoms (t ! (j + a))"
    by (auto split: if_splits)
  with Class.prems(2) have "a < n" by simp
  with agree have "t ! (j + a) = s ! (i + a)" "i + a < length s"
    by (auto simp add: agree_def)
  with * show ?case by simp
next
  case WordBoundary
  from WordBoundary.prems(3) have *: "b = a" "boundary t (j + a)"
    by (auto simp add: matcher_WordBoundary simp del: matcher.simps split: if_splits)
  with agree WordBoundary.prems(1) have "boundary s (i + a)"
    by (auto simp add: agree_def)
  with * show ?case by (simp add: matcher_WordBoundary del: matcher.simps)
next
  case (Cat rs)
  then show ?case
  proof (induction rs arbitrary: a)
    case Nil
    then show ?case by simp
  next
    case (Cons r rs)
    from Cons.prems(4) obtain y where
      y: "y \<in> set (matcher r t (j + a))" "j + b \<in> set (matcher (Cat rs) t y)"
      by auto
    define a' where "a' = y - j"
    have "j + a \<le> y" "y \<le> j + b" using matcher_lower [OF y(1)] matcher_lower [OF y(2)] by simp_all
    then have a': "y = j + a'" "a' \<le> n" using Cons.prems(3) by (auto simp add: a'_def)
    have first: "i + a' \<in> set (matcher r s (i + a))"
      by (rule Cons.prems(1) [of r, OF _ Cons.prems(2) a'(2)]) (use y(1) a'(1) in simp_all)
    have rest: "i + b \<in> set (matcher (Cat rs) s (i + a'))"
    proof (rule Cons.IH [OF _ a'(2) Cons.prems(3)])
      show "i + b \<in> set (matcher x s (i + a))"
        if "x \<in> set rs" "a \<le> n" "b \<le> n" "j + b \<in> set (matcher x t (j + a))" for x a b
        using Cons.prems(1) [of x a b] that by simp
      show "j + b \<in> set (matcher (Cat rs) t (j + a'))" using y(2) a'(1) by simp
    qed
    from first rest show ?case by auto
  qed
next
  case (Alt r1 r2)
  then show ?case by fastforce
next
  case (Quant mn mx r)
  have lens: "j + n \<le> length t" "i + n \<le> length s"
    using agree by (simp_all add: agree_def)
  from repeat_matcher_local [of n j "matcher r t" i "matcher r s", OF Quant.IH lens Quant.prems(1,2)]
    Quant.prems(3)
  show ?case by simp
qed

lemma word_at_nth: "i < length s \<Longrightarrow> word_at s (int i) = is_word_char (s ! i)"
  by (simp add: word_at_def)

lemma word_at_end: "length s \<le> i \<Longrightarrow> word_at s (int i) = False"
  by (simp add: word_at_def)

lemma word_at_before: "word_at s (int 0 - 1) = False"
  by (simp add: word_at_def)

lemma word_at_Suc: "word_at s (int (Suc i) - 1) = word_at s (int i)"
  by simp

lemma agreeI:
  assumes lens: "j + n \<le> length t" "i + n \<le> length s"
    and chars: "\<And>k. k < n \<Longrightarrow> t ! (j + k) = s ! (i + k)"
    and left: "word_at t (int j - 1) = word_at s (int i - 1)"
    and right: "word_at t (int (j + n)) = word_at s (int (i + n))"
  shows "agree t j s i n"
proof -
  have at: "word_at t (int (j + k)) = word_at s (int (i + k))" if "k \<le> n" for k
  proof (cases "k < n")
    case True
    then have "j + k < length t" "i + k < length s" using lens by simp_all
    then show ?thesis using chars [OF True] by (simp only: word_at_nth)
  next
    case False
    with that have "k = n" by simp
    then show ?thesis using right by simp
  qed
  have before: "word_at t (int (j + k) - 1) = word_at s (int (i + k) - 1)" if "k \<le> n" for k
  proof (cases k)
    case 0
    then show ?thesis using left by simp
  next
    case (Suc k')
    then have "k' \<le> n" using that by simp
    from at [OF this] show ?thesis
      unfolding Suc add_Suc_right word_at_Suc .
  qed
  show ?thesis
    unfolding agree_def boundary_def using lens chars at before by simp
qed

lemma pad_left: "word_at (pad a @ w @ pad b) (int (length (pad a)) - 1) = a"
proof (cases a)
  case True
  have "word_at (pad a @ w @ pad b) (int 0) = is_word_char ((pad a @ w @ pad b) ! 0)"
    by (rule word_at_nth) (simp add: pad_def True)
  then show ?thesis using True by (simp add: pad_def is_word_char_def)
next
  case False
  then show ?thesis using word_at_before [of "w @ pad b"] by (simp add: pad_def)
qed

lemma pad_right: "word_at (pad a @ w @ pad b) (int (length (pad a) + length w)) = b"
proof (cases b)
  case True
  have "word_at (pad a @ w @ pad b) (int (length (pad a) + length w))
          = is_word_char ((pad a @ w @ pad b) ! (length (pad a) + length w))"
    by (rule word_at_nth) (simp add: pad_def True)
  also have "(pad a @ w @ pad b) ! (length (pad a) + length w) = 0x61"
    by (simp add: nth_append pad_def True)
  finally show ?thesis using True by (simp add: is_word_char_def)
next
  case False
  then show ?thesis by (intro word_at_end [THEN trans]) (simp_all add: pad_def)
qed

lemma pad_nth: "k < length w \<Longrightarrow> (pad a @ w @ pad b) ! (length (pad a) + k) = w ! k"
  by (simp add: nth_append)

lemma matcher_accepts:
  assumes "i + n \<le> length s"
  shows "i + n \<in> set (matcher p s i)
         \<longleftrightarrow> accepts p (word_at s (int i - 1)) (take n (drop i s)) (word_at s (int (i + n)))"
proof -
  define a where "a = word_at s (int i - 1)"
  define b where "b = word_at s (int (i + n))"
  define w where "w = take n (drop i s)"
  define c where "c = pad a @ w @ pad b"
  have len: "length w = n" using assms by (simp add: w_def)
  have nth: "w ! k = s ! (i + k)" if "k < n" for k
    using that assms by (simp add: w_def)
  have lens: "length (pad a) + n \<le> length c" "i + n \<le> length s"
    using assms len by (simp_all add: c_def)
  have left: "word_at c (int (length (pad a)) - 1) = word_at s (int i - 1)"
    unfolding c_def pad_left a_def ..
  have right: "word_at c (int (length (pad a) + n)) = word_at s (int (i + n))"
    using pad_right [of a w b] unfolding c_def len b_def .
  have chars: "c ! (length (pad a) + k) = s ! (i + k)" if "k < n" for k
    using that pad_nth [of k w a b] nth len unfolding c_def by simp
  have 1: "agree c (length (pad a)) s i n"
    by (rule agreeI [OF lens chars left right])
  have 2: "agree s i c (length (pad a)) n"
    by (rule agreeI [OF lens(2,1) chars [symmetric] left [symmetric] right [symmetric]])
  have "i + n \<in> set (matcher p s i) \<longleftrightarrow> length (pad a) + n \<in> set (matcher p c (length (pad a)))"
    using matcher_local [OF 1, of 0 n p] matcher_local [OF 2, of 0 n p] by auto
  also have "\<dots> \<longleftrightarrow> accepts p a w b"
    unfolding accepts_def c_def len ..
  finally show ?thesis unfolding a_def b_def w_def .
qed

subsection \<open>The patterns of the registry are guarded\<close>

lemma boundary_in_range: "boundary s i \<Longrightarrow> i \<le> length s"
  by (auto simp add: boundary_def word_at_def)

lemma matcher_first_boundary:
  "e \<in> set (matcher (Cat (WordBoundary # rs)) s i) \<Longrightarrow> boundary s i"
  by (auto simp add: matcher_WordBoundary simp del: matcher.simps(2) split: if_splits)

lemma matcher_last_boundary:
  "rs \<noteq> [] \<Longrightarrow> last rs = WordBoundary \<Longrightarrow> e \<in> set (matcher (Cat rs) s i) \<Longrightarrow> boundary s e"
proof (induction rs arbitrary: i)
  case Nil
  then show ?case by simp
next
  case (Cons r rs)
  show ?case
  proof (cases "rs = []")
    case True
    with Cons.prems show ?thesis
      by (auto simp add: matcher_WordBoundary simp del: matcher.simps(2) split: if_splits)
  next
    case False
    from Cons.prems(3) obtain y where "e \<in> set (matcher (Cat rs) s y)" by auto
    with Cons.IH [OF False] Cons.prems(2) False show ?thesis by simp
  qed
qed

lemma guardedI:
  assumes "rs \<noteq> []" and "last rs = WordBoundary"
    and "0 < min_length (Cat (WordBoundary # rs))"
    and "regex_chars (\<lambda>c. c \<noteq> 0x2A) (Cat (WordBoundary # rs))"
  shows "guarded (Cat (WordBoundary # rs))"
  unfolding guarded_def
proof (intro allI impI conjI)
  fix s i e k
  assume e: "e \<in> set (matcher (Cat (WordBoundary # rs)) s i)"
  show "i < e" using matcher_min_length [OF e] assms(3) by simp
  show "boundary s i" using e by (rule matcher_first_boundary)
  show "boundary s e"
    by (rule matcher_last_boundary [OF _ _ e]) (use assms(1,2) in simp_all)
  assume "i \<le> k \<and> k < e"
  then show "s ! k \<noteq> 0x2A"
    using matcher_chars [OF assms(4) e, of k] by simp
qed

lemma guarded_cpr: "guarded cpr_pattern"
  unfolding cpr_pattern_def
  by (rule guardedI) (auto simp add: class_matches_def white_space_def)

lemma guarded_phone: "guarded phone_pattern"
  unfolding phone_pattern_def
  by (rule guardedI) (auto simp add: class_matches_def white_space_def)

lemma guarded_creditCard: "guarded creditCard_pattern"
  unfolding creditCard_pattern_def
  by (rule guardedI) (auto simp add: class_matches_def white_space_def)

lemma guarded_ssn: "guarded ssn_pattern"
  unfolding ssn_pattern_def
  by (rule guardedI) (auto simp add: class_matches_def white_space_def)

lemma guarded_email: "guarded email_pattern"
  unfolding email_pattern_def
  by (rule guardedI) (auto simp add: class_matches_def)

lemma accepts_facts:
  assumes "guarded p" and "accepts p a w b"
  shows "w \<noteq> []" and "a \<noteq> is_word_char (hd w)" and "is_word_char (last w) \<noteq> b"
    and "\<forall>c \<in> set w. c \<noteq> 0x2A"
proof -
  let ?c = "pad a @ w @ pad b"
  let ?i = "length (pad a)"
  let ?e = "length (pad a) + length w"
  from assms have m: "?e \<in> set (matcher p ?c ?i)" by (simp add: accepts_def)
  with assms(1) have g: "?i < ?e" "boundary ?c ?i" "boundary ?c ?e"
    "\<And>k. ?i \<le> k \<Longrightarrow> k < ?e \<Longrightarrow> ?c ! k \<noteq> 0x2A"
    unfolding guarded_def by blast+
  from g(1) show w: "w \<noteq> []" by simp
  have "word_at ?c (int ?i) = is_word_char (?c ! ?i)"
    by (rule word_at_nth) (use w in simp)
  then have first: "word_at ?c (int ?i) = is_word_char (hd w)"
    using w pad_nth [of 0 w a b] by (simp add: hd_conv_nth)
  from g(2) show "a \<noteq> is_word_char (hd w)"
    unfolding boundary_def pad_left first .
  have e: "?e = Suc (?i + (length w - 1))" using w by simp
  have "length w - 1 < length w" using w by (cases w) simp_all
  then have "word_at ?c (int (?i + (length w - 1))) = is_word_char (?c ! (?i + (length w - 1)))"
    by (intro word_at_nth) simp
  then have "word_at ?c (int ?e - 1) = is_word_char (last w)"
    using w pad_nth [of "length w - 1" w a b]
    unfolding e word_at_Suc by (simp add: last_conv_nth)
  with g(3) show "is_word_char (last w) \<noteq> b"
    unfolding boundary_def pad_right by simp
  show "\<forall>c \<in> set w. c \<noteq> 0x2A"
  proof
    fix c assume "c \<in> set w"
    then obtain k where k: "k < length w" "w ! k = c" by (auto simp add: in_set_conv_nth)
    from g(4) [of "?i + k"] k pad_nth [OF k(1), of a b] show "c \<noteq> 0x2A" by simp
  qed
qed

subsection \<open>A match in the result of a replacement comes from the source string\<close>

text \<open>
  A match of a guarded pattern in the result of replacing the matches of a guarded pattern by
  a framed placeholder lies in text that was copied; the same match is in the source string,
  at an index where the replaced pattern did not match.
\<close>

lemma replace_from_cases:
  assumes "guarded p" and "i \<le> length s"
  obtains
    (keep) "i < length s" "matcher p s i = []"
      "replace_from p (Constant P) s i = s ! i # replace_from p (Constant P) s (i + 1)"
  | (stop) "i = length s" "matcher p s i = []" "replace_from p (Constant P) s i = []"
  | (hit) e where "matcher p s i \<noteq> []" "i < e" "e \<le> length s" "boundary s i" "boundary s e"
      "replace_from p (Constant P) s i = P @ replace_from p (Constant P) s e"
proof (cases "matcher p s i")
  case Nil
  show ?thesis
  proof (cases "i < length s")
    case True
    have "replace_from p (Constant P) s i = s ! i # replace_from p (Constant P) s (i + 1)"
      using Nil True by (subst replace_from.simps) simp
    with True Nil show ?thesis by (rule keep)
  next
    case False
    with assms(2) have i: "i = length s" by simp
    have "replace_from p (Constant P) s i = []"
      using Nil i by (subst replace_from.simps) simp
    with i Nil show ?thesis by (rule stop)
  qed
next
  case (Cons e es)
  then have "e \<in> set (matcher p s i)" by simp
  with assms(1) have g: "i < e" "boundary s i" "boundary s e"
    unfolding guarded_def by blast+
  from g(3) have "e \<le> length s" by (rule boundary_in_range)
  moreover have "replace_from p (Constant P) s i = P @ replace_from p (Constant P) s e"
    using Cons g(1) assms(2) by (subst replace_from.simps) simp
  ultimately show ?thesis using hit [of e] Cons g by simp
qed

lemma first_word_replace_from:
  assumes "guarded p" and "framed P" and "i \<le> length s"
  shows "first_word (replace_from p (Constant P) s i) \<longleftrightarrow> matcher p s i = [] \<and> word_at s (int i)"
  using assms(1,3)
proof (cases rule: replace_from_cases [where P = P])
  case keep
  then show ?thesis by (simp add: first_word_def word_at_nth)
next
  case stop
  then show ?thesis by (simp add: first_word_def word_at_end)
next
  case (hit e)
  with assms(2) show ?thesis by (simp add: first_word_def framed_def is_word_char_def)
qed

lemma prefix_lift:
  assumes "guarded p" and "framed P"
  shows "i \<le> length s \<Longrightarrow> replace_from p (Constant P) s i = w @ y \<Longrightarrow> w \<noteq> []
         \<Longrightarrow> \<forall>c \<in> set w. c \<noteq> 0x2A \<Longrightarrow> is_word_char (last w) \<noteq> first_word y
         \<Longrightarrow> i + length w \<le> length s \<and> take (length w) (drop i s) = w
             \<and> (\<forall>k < length w. matcher p s (i + k) = [])
             \<and> word_at s (int (i + length w)) = first_word y"
proof (induction w arbitrary: i)
  case Nil
  then show ?case by simp
next
  case (Cons c w)
  from assms(1) Cons.prems(1)
  show ?case
  proof (cases rule: replace_from_cases [where P = P])
    case stop
    with Cons.prems(2) show ?thesis by simp
  next
    case (hit e)
    with Cons.prems(2) assms(2) have "c = 0x2A"
      by (cases P) (simp_all add: framed_def)
    with Cons.prems(4) show ?thesis by simp
  next
    case keep
    with Cons.prems(2) have c: "c = s ! i"
      and rest: "replace_from p (Constant P) s (i + 1) = w @ y" by simp_all
    have i1: "i + 1 \<le> length s" using keep(1) by simp
    have split: "drop i s = c # drop (i + 1) s"
      using keep(1) c by (simp add: Cons_nth_drop_Suc)
    show ?thesis
    proof (cases "w = []")
      case True
      with rest have y: "y = replace_from p (Constant P) s (i + 1)" by simp
      have fw: "first_word y \<longleftrightarrow> matcher p s (i + 1) = [] \<and> word_at s (int (i + 1))"
        unfolding y by (rule first_word_replace_from [OF assms i1])
      have "word_at s (int (i + 1)) = first_word y"
      proof (cases "matcher p s (i + 1) = []")
        case True
        with fw show ?thesis by simp
      next
        case False
        then obtain e where "e \<in> set (matcher p s (i + 1))" by (cases "matcher p s (i + 1)") auto
        with assms(1) have "boundary s (i + 1)" unfolding guarded_def by blast
        then have b: "word_at s (int i) \<noteq> word_at s (int (i + 1))"
          by (simp add: boundary_def)
        from False fw have nf: "\<not> first_word y" by simp
        with Cons.prems(5) True have "is_word_char c" by simp
        then have "word_at s (int i)" using keep(1) c by (simp add: word_at_nth)
        with b nf show ?thesis by simp
      qed
      with True keep split show ?thesis by simp
    next
      case False
      from Cons.prems(4,5) False have "\<forall>c \<in> set w. c \<noteq> 0x2A" "is_word_char (last w) \<noteq> first_word y"
        by simp_all
      from Cons.IH [OF i1 rest False this]
      have ih: "i + 1 + length w \<le> length s" "take (length w) (drop (i + 1) s) = w"
        "\<forall>k < length w. matcher p s (i + 1 + k) = []"
        "word_at s (int (i + 1 + length w)) = first_word y"
        by simp_all
      have "take (length (c # w)) (drop i s) = c # w"
        using ih(2) by (simp add: split)
      moreover have "\<forall>k < length (c # w). matcher p s (i + k) = []"
      proof (intro allI impI)
        fix k assume "k < length (c # w)"
        then show "matcher p s (i + k) = []"
          using keep(2) ih(3) by (cases k) simp_all
      qed
      ultimately show ?thesis using ih(1,4) by (simp add: algebra_simps)
    qed
  qed
qed

lemma left_word_Cons: "left_word a (c # x) = left_word (is_word_char c) x"
  by (simp add: left_word_def)

lemma left_word_append_framed: "framed P \<Longrightarrow> left_word a (P @ u) = left_word False u"
  by (auto simp add: left_word_def framed_def)

lemma occurrence_lift:
  assumes p: "guarded p" and p': "guarded p'" and P: "framed P"
  shows "i \<le> length s \<Longrightarrow> a = word_at s (int i - 1) \<or> (\<not> a \<and> \<not> word_at s (int i))
         \<Longrightarrow> replace_from p' (Constant P) s i = x @ w @ y
         \<Longrightarrow> accepts p (left_word a x) w (first_word y)
         \<Longrightarrow> \<exists>k. matcher p' s k = [] \<and> matcher p s k \<noteq> []"
proof (induction "length s - i" arbitrary: i a x rule: less_induct)
  case less
  note facts = accepts_facts [OF p less.prems(4)]
  from p' less.prems(1)
  show ?case
  proof (cases rule: replace_from_cases [where P = P])
    case stop
    with less.prems(3) facts(1) show ?thesis by simp
  next
    case keep
    show ?thesis
    proof (cases x)
      case Nil
      with less.prems(3,4) have out: "replace_from p' (Constant P) s i = w @ y"
        and acc: "accepts p a w (first_word y)"
        by (simp_all add: left_word_def)
      note facts = accepts_facts [OF p acc]
      from prefix_lift [OF p' P less.prems(1) out facts(1,4,3)]
      have lift: "i + length w \<le> length s" "take (length w) (drop i s) = w"
        "\<forall>k < length w. matcher p' s (i + k) = []"
        "word_at s (int (i + length w)) = first_word y"
        by simp_all
      have hd: "hd w = s ! i"
        using lift(2) facts(1) keep(1) by (metis hd_drop_conv_nth hd_take length_greater_0_conv)
      from less.prems(2) show ?thesis
      proof
        assume "a = word_at s (int i - 1)"
        with acc lift(2,4) have "i + length w \<in> set (matcher p s i)"
          by (simp add: matcher_accepts [OF lift(1)])
        then have "matcher p s i \<noteq> []" by auto
        with keep(2) show ?thesis by blast
      next
        assume "\<not> a \<and> \<not> word_at s (int i)"
        with facts(2) hd keep(1) show ?thesis by (simp add: word_at_nth)
      qed
    next
      case (Cons c x')
      with less.prems(3) keep(3) have c: "c = s ! i"
        and out: "replace_from p' (Constant P) s (i + 1) = x' @ w @ y" by simp_all
      have a: "is_word_char c = word_at s (int (i + 1) - 1)"
        using keep(1) c by (simp add: word_at_nth)
      have acc: "accepts p (left_word (is_word_char c) x') w (first_word y)"
        using less.prems(4) by (simp add: Cons left_word_Cons)
      have "length s - (i + 1) < length s - i" using keep(1) by simp
      from less.hyps [OF this _ _ out acc] a keep(1) show ?thesis by simp
    qed
  next
    case (hit e)
    from less.prems(3) hit(6) have "P @ replace_from p' (Constant P) s e = x @ (w @ y)" by simp
    then obtain u where
      u: "(P = x @ u \<and> u @ replace_from p' (Constant P) s e = w @ y)
          \<or> (P @ u = x \<and> replace_from p' (Constant P) s e = u @ w @ y)"
      by (auto simp add: append_eq_append_conv2)
    have inner: ?thesis if out: "replace_from p' (Constant P) s e = u @ w @ y" and x: "x = P @ u" for u
    proof -
      have acc: "accepts p (left_word False u) w (first_word y)"
        using less.prems(4) by (simp add: x left_word_append_framed [OF P])
      have ctx: "False = word_at s (int e - 1) \<or> (\<not> False \<and> \<not> word_at s (int e))"
        using hit(5) by (auto simp add: boundary_def)
      have "length s - e < length s - i" using hit(2,3) by simp
      from less.hyps [OF this hit(3) ctx out acc] show ?thesis .
    qed
    from u show ?thesis
    proof
      assume "P @ u = x \<and> replace_from p' (Constant P) s e = u @ w @ y"
      then have "replace_from p' (Constant P) s e = u @ w @ y" "x = P @ u" by simp_all
      then show ?thesis by (rule inner)
    next
      assume *: "P = x @ u \<and> u @ replace_from p' (Constant P) s e = w @ y"
      show ?thesis
      proof (cases "u = []")
        case True
        with * have "replace_from p' (Constant P) s e = [] @ w @ y" "x = P @ []" by auto
        then show ?thesis by (rule inner)
      next
        case False
        with * facts(1) have "hd w = hd u" by (metis hd_append2)
        moreover have "hd u \<in> set P" using False * by auto
        ultimately have hw: "\<not> is_word_char (hd w)" using P by (simp add: framed_def)
        show ?thesis
        proof (cases "x = []")
          case True
          with * False have "hd w = hd P" using \<open>hd w = hd u\<close> by simp
          with P have "hd w = 0x2A" by (simp add: framed_def)
          with facts(1,4) show ?thesis by (metis hd_in_set)
        next
          case False
          then have "last x \<in> set P" using * by auto
          with P False have "\<not> left_word a x" by (simp add: left_word_def framed_def)
          with facts(2) hw show ?thesis by simp
        qed
      qed
    qed
  qed
qed

lemma no_new_match:
  assumes p: "guarded p" and p': "guarded p'" and P: "framed P"
    and e: "e \<in> set (matcher p (replace s p' (Constant P)) j)"
  shows "\<exists>k. matcher p' s k = [] \<and> matcher p s k \<noteq> []"
proof -
  define t where "t = replace s p' (Constant P)"
  from p e have g: "j < e" "boundary t j" unfolding guarded_def t_def by blast+
  define n where "n = e - j"
  have en: "e = j + n" using g(1) by (simp add: n_def)
  have j: "j \<le> length t" using g(2) by (rule boundary_in_range)
  with e have len: "j + n \<le> length t" unfolding t_def [symmetric] en by (rule matcher_upper)
  define x w y where "x = take j t" and "w = take n (drop j t)" and "y = drop (j + n) t"
  have t: "t = x @ w @ y"
    unfolding x_def w_def y_def
    by (metis add.commute append_take_drop_id drop_drop)
  have left: "left_word False x = word_at t (int j - 1)"
  proof (cases j)
    case 0
    then show ?thesis using word_at_before [of t] by (simp add: left_word_def x_def)
  next
    case (Suc j')
    with j have "j' < length t" by simp
    then have "last (take (Suc j') t) = t ! j'"
      by (simp add: take_Suc_conv_app_nth)
    moreover have "take (Suc j') t \<noteq> []" using \<open>j' < length t\<close> by auto
    ultimately show ?thesis
      using \<open>j' < length t\<close> unfolding Suc x_def left_word_def word_at_Suc
      by (simp add: word_at_nth)
  qed
  have right: "first_word y = word_at t (int (j + n))"
  proof (cases "j + n < length t")
    case True
    then show ?thesis
      by (simp add: first_word_def y_def hd_drop_conv_nth word_at_nth del: of_nat_add)
  next
    case False
    then show ?thesis by (simp add: first_word_def y_def word_at_end del: of_nat_add)
  qed
  from e have "accepts p (left_word False x) w (first_word y)"
    unfolding left right w_def t_def [symmetric] en matcher_accepts [OF len] .
  moreover have "replace_from p' (Constant P) s 0 = x @ w @ y"
    using t by (simp add: t_def replace_def)
  moreover have "False = word_at s (int 0 - 1) \<or> (\<not> False \<and> \<not> word_at s (int 0))"
    using word_at_before [of s] by simp
  ultimately show ?thesis
    using occurrence_lift [OF p p' P, of 0 s False x w y] by blast
qed

subsection \<open>Rules one after the other\<close>

lemma replace_from_unmatched:
  "unmatched p s \<Longrightarrow> i \<le> length s \<Longrightarrow> replace_from p r s i = drop i s"
proof (induction "length s - i" arbitrary: i)
  case 0
  then show ?case by (subst replace_from.simps) (simp add: unmatched_def)
next
  case (Suc n)
  then have "i < length s" by simp
  moreover from Suc.hyps(1) [of "i + 1"] Suc.hyps(2) Suc.prems
  have "replace_from p r s (i + 1) = drop (i + 1) s" by simp
  ultimately show ?case
    using Suc.prems(1) by (subst replace_from.simps) (simp add: unmatched_def Cons_nth_drop_Suc)
qed

lemma replace_unmatched: "unmatched p s \<Longrightarrow> replace s p r = s"
  by (simp add: replace_def replace_from_unmatched)

lemma unmatched_after_own_rule:
  assumes "guarded p" and "framed P"
  shows "unmatched p (replace s p (Constant P))"
  unfolding unmatched_def
proof
  fix j
  show "matcher p (replace s p (Constant P)) j = []"
  proof (rule ccontr)
    assume "matcher p (replace s p (Constant P)) j \<noteq> []"
    then obtain e where "e \<in> set (matcher p (replace s p (Constant P)) j)"
      by (cases "matcher p (replace s p (Constant P)) j") auto
    from no_new_match [OF assms(1) assms(1) assms(2) this] show False by auto
  qed
qed

lemma unmatched_after_other_rule:
  assumes "guarded p" and "guarded p'" and "framed P" and "unmatched p s"
  shows "unmatched p (replace s p' (Constant P))"
  unfolding unmatched_def
proof
  fix j
  show "matcher p (replace s p' (Constant P)) j = []"
  proof (rule ccontr)
    assume "matcher p (replace s p' (Constant P)) j \<noteq> []"
    then obtain e where "e \<in> set (matcher p (replace s p' (Constant P)) j)"
      by (cases "matcher p (replace s p' (Constant P)) j") auto
    from no_new_match [OF assms(1,2,3) this] assms(4) show False by (auto simp add: unmatched_def)
  qed
qed

lemma framed_placeholders:
  "framed (js ''******-****'')" "framed (js ''** ** ** **'')"
  "framed (js ''**** **** **** ****'')" "framed (js ''***-**-****'')"
  by (simp_all add: framed_def js_def is_word_char_def)

subsection \<open>The matches of the email pattern\<close>

text \<open>
  A match of the email pattern starts at a word boundary, runs over code units of the local
  class up to an \<open>@\<close>, and goes on with a match of the rest of the pattern; and every such
  run is a match.
\<close>

lemma email_match_iff:
  "e \<in> set (matcher email_pattern s m) \<longleftrightarrow>
     boundary s m \<and>
     (\<exists>a \<in> set (matcher (Quant 1 None (Class local_class)) s m).
        a < length s \<and> s ! a = 0x40 \<and> e \<in> set (matcher email_tail s (a + 1)))"
  by (auto simp add: email_pattern_def local_class_def email_tail_def matcher_WordBoundary
        class_matches_def simp del: matcher.simps(2) matcher.simps(6) split: if_splits)

lemma repeat_class_complete:
  "i \<le> a \<Longrightarrow> a \<le> length s \<Longrightarrow> mn \<le> a - i \<Longrightarrow> mn \<le> 1
   \<Longrightarrow> \<forall>k. i \<le> k \<and> k < a \<longrightarrow> class_matches atoms (s ! k)
   \<Longrightarrow> a \<in> set (repeat_matcher (matcher (Class atoms) s) (length s) mn None i)"
proof (induction "a - i" arbitrary: i mn)
  case 0
  then show ?case by (subst repeat_matcher_member) simp
next
  case (Suc d)
  then have i: "i < a" "i < length s" "class_matches atoms (s ! i)" by auto
  have first: "i + 1 \<in> set (matcher (Class atoms) s i)" using i by simp
  have "a \<in> set (repeat_matcher (matcher (Class atoms) s) (length s) (mn - 1) None (i + 1))"
    using Suc.hyps(2) Suc.prems i by (intro Suc.hyps(1)) auto
  with first i Suc.prems(2) show ?case
    by (subst repeat_matcher_member) (auto simp del: matcher.simps intro!: bexI [of _ "Suc i"])
qed

lemma email_match_structure:
  assumes "e \<in> set (matcher email_pattern s m)"
  obtains a where "boundary s m" "m < a" "a < e" "a < length s" "s ! a = 0x40"
    "\<forall>k. m \<le> k \<and> k < a \<longrightarrow> class_matches local_class (s ! k)"
    "e \<in> set (matcher email_tail s (a + 1))"
proof -
  from assms obtain a where a: "boundary s m" "a \<in> set (matcher (Quant 1 None (Class local_class)) s m)"
    "a < length s" "s ! a = 0x40" "e \<in> set (matcher email_tail s (a + 1))"
    unfolding email_match_iff by blast
  have "m < a" using matcher_min_length [OF a(2)] by simp
  moreover have "a < e" using matcher_lower [OF a(5)] by simp
  moreover have "\<forall>k. m \<le> k \<and> k < a \<longrightarrow> class_matches local_class (s ! k)"
    using matcher_chars [of "class_matches local_class" _ a s m, OF _ a(2)] by simp
  ultimately show ?thesis using a that by blast
qed

lemma email_match_build:
  assumes "boundary s j" and "j < a" and "a < length s" and "s ! a = 0x40"
    and "\<forall>k. j \<le> k \<and> k < a \<longrightarrow> class_matches local_class (s ! k)"
    and "e \<in> set (matcher email_tail s (a + 1))"
  shows "e \<in> set (matcher email_pattern s j)"
proof -
  have "a \<in> set (matcher (Quant 1 None (Class local_class)) s j)"
    using assms(2,3,5) by (simp del: matcher.simps(1)) (intro repeat_class_complete, auto)
  with assms show ?thesis unfolding email_match_iff by blast
qed

subsection \<open>The replacement of the email rule in a string with one \<open>@\<close>\<close>

text \<open>
  \<open>replace\<close> copies the code units at which no match starts, replaces a match, and copies
  the rest of the string when no match starts behind it.
\<close>

lemma replace_from_skip:
  "i \<le> m \<Longrightarrow> m \<le> length s \<Longrightarrow> \<forall>k. i \<le> k \<and> k < m \<longrightarrow> matcher p s k = []
   \<Longrightarrow> replace_from p r s i = take (m - i) (drop i s) @ replace_from p r s m"
proof (induction "m - i" arbitrary: i)
  case 0
  then show ?case by simp
next
  case (Suc n)
  then have i: "i < m" "i < length s" "matcher p s i = []" by auto
  have "replace_from p r s (i + 1) = take (m - (i + 1)) (drop (i + 1) s) @ replace_from p r s m"
    using Suc by (intro Suc.hyps(1)) auto
  moreover have "take (m - i) (drop i s) = s ! i # take (m - (i + 1)) (drop (i + 1) s)"
  proof -
    have "m - i = Suc (m - (i + 1))" using i by simp
    then show ?thesis using i by (simp add: Cons_nth_drop_Suc [symmetric])
  qed
  ultimately show ?case
    using i by (subst replace_from.simps) simp
qed

lemma replace_from_rest:
  assumes "e \<le> length s" and "\<forall>k. e \<le> k \<longrightarrow> matcher p s k = []"
  shows "replace_from p r s e = drop e s"
proof -
  have "replace_from p r s (length s) = []"
    using assms by (subst replace_from.simps) simp
  with replace_from_skip [of e "length s" s p r] assms show ?thesis by simp
qed

lemma replace_from_hit:
  "matcher p s m = e # es \<Longrightarrow> m < e \<Longrightarrow> m \<le> length s
   \<Longrightarrow> replace_from p r s m = replace_value r (substring s m e) @ replace_from p r s e"
  by (subst replace_from.simps) simp

text \<open>
  A code unit that a string holds at most once stands at one index only, and a constant
  placeholder without it does not add an occurrence.
\<close>

lemma count_unique:
  "count_list s c \<le> 1 \<Longrightarrow> a < length s \<Longrightarrow> b < length s \<Longrightarrow> s ! a = c \<Longrightarrow> s ! b = c
   \<Longrightarrow> a = b"
proof (induction s arbitrary: a b)
  case Nil
  then show ?case by simp
next
  case (Cons x xs)
  show ?case
  proof (cases a)
    case 0
    show ?thesis
    proof (cases b)
      case (Suc b')
      with Cons.prems 0 have "x = c" "c \<in> set xs" by auto
      then have "0 < count_list xs c" using count_list_0_iff [of xs c] by simp
      with \<open>x = c\<close> Cons.prems(1) show ?thesis by simp
    qed (simp add: 0)
  next
    case (Suc a')
    show ?thesis
    proof (cases b)
      case 0
      with Cons.prems Suc have "x = c" "c \<in> set xs" by auto
      then have "0 < count_list xs c" using count_list_0_iff [of xs c] by simp
      with \<open>x = c\<close> Cons.prems(1) show ?thesis by simp
    next
      case b: (Suc b')
      from Cons.prems(1) have "count_list xs c \<le> 1" by (simp split: if_splits)
      from Cons.IH [OF this, of a' b'] Cons.prems Suc b show ?thesis by simp
    qed
  qed
qed

lemma count_outside:
  assumes "count_list s c \<le> 1" and "a < length s" and "s ! a = c"
  shows "c \<notin> set (take a s)" and "c \<notin> set (drop (a + 1) s)"
proof -
  show "c \<notin> set (take a s)"
  proof
    assume "c \<in> set (take a s)"
    then obtain k where "k < length (take a s)" "take a s ! k = c"
      by (auto simp add: in_set_conv_nth)
    then have "k < a" "k < length s" "s ! k = c" using assms(2) by simp_all
    with count_unique [OF assms(1) assms(2) this(2) assms(3)] show False by simp
  qed
  show "c \<notin> set (drop (a + 1) s)"
  proof
    assume "c \<in> set (drop (a + 1) s)"
    then obtain k where "k < length (drop (a + 1) s)" "drop (a + 1) s ! k = c"
      by (auto simp add: in_set_conv_nth)
    then have "a + 1 + k < length s" "s ! (a + 1 + k) = c" using assms(2) by simp_all
    with count_unique [OF assms(1) assms(2) this(1) assms(3)] show False by simp
  qed
qed

lemma count_drop: "i \<le> e \<Longrightarrow> count_list (drop e s) c \<le> count_list (drop i s) c"
proof -
  assume "i \<le> e"
  then have "drop i s = take (e - i) (drop i s) @ drop e s"
    by (metis append_take_drop_id drop_drop le_add_diff_inverse2)
  then have "count_list (drop i s) c
               = count_list (take (e - i) (drop i s)) c + count_list (drop e s) c"
    by (metis count_list_append)
  then show ?thesis by simp
qed

lemma count_replace_from:
  assumes "guarded p" and "c \<notin> set P"
  shows "i \<le> length s \<Longrightarrow> count_list (replace_from p (Constant P) s i) c \<le> count_list (drop i s) c"
proof (induction "length s - i" arbitrary: i rule: less_induct)
  case less
  from assms(1) less.prems show ?case
  proof (cases rule: replace_from_cases [where P = P])
    case keep
    have "count_list (replace_from p (Constant P) s (i + 1)) c \<le> count_list (drop (i + 1) s) c"
      using keep(1) by (intro less.hyps) simp_all
    moreover have "drop i s = s ! i # drop (i + 1) s"
      using keep(1) by (simp add: Cons_nth_drop_Suc)
    ultimately show ?thesis using keep(3) by simp
  next
    case stop
    then show ?thesis by simp
  next
    case (hit e)
    have "count_list (replace_from p (Constant P) s e) c \<le> count_list (drop e s) c"
      using hit(2,3) less.prems by (intro less.hyps) simp_all
    moreover have "count_list (drop e s) c \<le> count_list (drop i s) c"
      using hit(2) by (intro count_drop) simp
    moreover have "count_list P c = 0" using assms(2) by (simp add: count_list_0_iff)
    ultimately show ?thesis using hit(6) by simp
  qed
qed

lemma count_replace:
  "guarded p \<Longrightarrow> c \<notin> set P \<Longrightarrow> count_list (replace s p (Constant P)) c \<le> count_list s c"
  using count_replace_from [of p c P 0 s] by (simp add: replace_def)

text \<open>
  A match with one \<open>@\<close> is split into two parts, and its replacement is the first two code
  units of the first part, \<open>***@\<close> and the second part.
\<close>

lemma split_once:
  "sep \<notin> set l \<Longrightarrow> sep \<notin> set d \<Longrightarrow> split (l @ sep # d) sep = [l, d]"
proof (induction l)
  case Nil
  have "sep \<notin> set d \<Longrightarrow> split d sep = [d]"
    by (induction d) auto
  with Nil show ?case by simp
next
  case (Cons c l)
  then show ?case by simp
qed

lemma email_replacement_once:
  "0x40 \<notin> set l \<Longrightarrow> 0x40 \<notin> set d
   \<Longrightarrow> email_replacement (l @ 0x40 # d) = take 2 l @ js ''***@'' @ d"
  using split_once [of "0x40" l d] by (simp add: email_replacement_def substring_def)

text \<open>
  In a string with at most one \<open>@\<close> the email rule finds no match or one. The match it
  replaces starts at the least index \<open>m\<close> at which the pattern matches; the result keeps the
  string up to the second code unit of the local part (or up to the \<open>@\<close>, when the local part
  is shorter), and goes on with \<open>***@\<close> and the string behind the \<open>@\<close>.
\<close>

lemma email_step:
  assumes single: "count_list s 0x40 \<le> 1"
  obtains (none) "unmatched email_pattern s"
  | (one) m a e where "\<forall>k<m. matcher email_pattern s k = []" "m < a" "a < length s"
      "s ! a = 0x40" "\<forall>k. m \<le> k \<and> k < a \<longrightarrow> class_matches local_class (s ! k)"
      "e \<in> set (matcher email_tail s (a + 1))"
      "replace s email_pattern (Computed email_replacement)
         = take (min (m + 2) a) s @ js ''***@'' @ drop (a + 1) s"
proof (cases "unmatched email_pattern s")
  case True
  then show ?thesis by (rule none)
next
  case False
  then have ex: "\<exists>i. matcher email_pattern s i \<noteq> []" by (simp add: unmatched_def)
  define m where "m = (LEAST i. matcher email_pattern s i \<noteq> [])"
  have m: "matcher email_pattern s m \<noteq> []"
    unfolding m_def using ex by (rule LeastI_ex)
  have before: "\<forall>k<m. matcher email_pattern s k = []"
    unfolding m_def using not_less_Least by blast
  from m obtain e es where first: "matcher email_pattern s m = e # es"
    by (cases "matcher email_pattern s m") auto
  then have "e \<in> set (matcher email_pattern s m)" by simp
  then obtain a where a: "boundary s m" "m < a" "a < e" "a < length s" "s ! a = 0x40"
    "\<forall>k. m \<le> k \<and> k < a \<longrightarrow> class_matches local_class (s ! k)"
    "e \<in> set (matcher email_tail s (a + 1))"
    by (rule email_match_structure)
  have e: "e \<le> length s"
    using matcher_upper [OF a(7)] a(4) by simp
  have after: "\<forall>k. e \<le> k \<longrightarrow> matcher email_pattern s k = []"
  proof (intro allI impI, rule ccontr)
    fix k
    assume k: "e \<le> k" and "matcher email_pattern s k \<noteq> []"
    then obtain e' where "e' \<in> set (matcher email_pattern s k)"
      by (cases "matcher email_pattern s k") auto
    then obtain a' where "k < a'" "a' < length s" "s ! a' = 0x40"
      by (rule email_match_structure)
    with count_unique [OF single a(4) this(2) a(5) this(3)] a(3) k show False by simp
  qed
  define l where "l = take (a - m) (drop m s)"
  define d where "d = take (e - (a + 1)) (drop (a + 1) s)"
  have outside: "0x40 \<notin> set (take a s)" "0x40 \<notin> set (drop (a + 1) s)"
    using count_outside [OF single a(4,5)] by simp_all
  have "take a s = take m s @ l"
    using a(2) take_add [of m "a - m" s] by (simp add: l_def)
  with outside(1) have l: "0x40 \<notin> set l" by simp
  have d: "0x40 \<notin> set d"
    using outside(2) set_take_subset [of "e - (a + 1)" "drop (a + 1) s"] by (auto simp add: d_def)
  have "take (e - m) (drop m s) = take (a - m) (drop m s) @ take (e - a) (drop a s)"
    using a(2,3) take_add [of "a - m" "e - a" "drop m s"] by simp
  moreover have "take (e - a) (drop a s) = 0x40 # d"
  proof -
    have "e - a = Suc (e - (a + 1))" using a(3) by simp
    then show ?thesis using a(4,5) by (simp add: Cons_nth_drop_Suc [symmetric] d_def)
  qed
  ultimately have matched: "substring s m e = l @ 0x40 # d"
    by (simp add: substring_def l_def)
  have rest: "d @ drop e s = drop (a + 1) s"
  proof -
    have "drop e s = drop (e - (a + 1)) (drop (a + 1) s)" using a(3) by simp
    then show ?thesis unfolding d_def by (simp only: append_take_drop_id)
  qed
  have front: "take m s @ take 2 l = take (min (m + 2) a) s"
  proof -
    have "take 2 l = take (min 2 (a - m)) (drop m s)" by (simp add: l_def)
    moreover have "m + min 2 (a - m) = min (m + 2) a" using a(2) by simp
    ultimately show ?thesis using take_add [of m "min 2 (a - m)" s] by simp
  qed
  have "replace s email_pattern (Computed email_replacement)
          = take m s @ replace_from email_pattern (Computed email_replacement) s m"
    using replace_from_skip [of 0 m s email_pattern] before a(2,4) by (simp add: replace_def)
  also have "replace_from email_pattern (Computed email_replacement) s m
               = email_replacement (l @ 0x40 # d) @ drop e s"
    using replace_from_hit [OF first] a(2,3,4) replace_from_rest [OF e after]
    by (simp add: matched)
  also have "email_replacement (l @ 0x40 # d) = take 2 l @ js ''***@'' @ d"
    using l d by (rule email_replacement_once)
  finally have "replace s email_pattern (Computed email_replacement)
                  = (take m s @ take 2 l) @ js ''***@'' @ (d @ drop e s)"
    by simp
  then have "replace s email_pattern (Computed email_replacement)
               = take (min (m + 2) a) s @ js ''***@'' @ drop (a + 1) s"
    unfolding front rest .
  with before a show ?thesis by (intro one [of m a e]) 
qed

text \<open>
  In the result the only \<open>@\<close> stands behind an asterisk, which is no code unit of a local
  part: the email pattern has no match there.
\<close>

lemma email_unmatched_after:
  assumes "0x40 \<notin> set u" and "0x40 \<notin> set v"
  shows "unmatched email_pattern (u @ js ''***@'' @ v)"
  unfolding unmatched_def
proof (intro allI, rule ccontr)
  fix j
  define t where "t = u @ js ''***@'' @ v"
  assume "matcher email_pattern (u @ js ''***@'' @ v) j \<noteq> []"
  then obtain e where "e \<in> set (matcher email_pattern t j)"
    unfolding t_def by (cases "matcher email_pattern (u @ js ''***@'' @ v) j") auto
  then obtain a where a: "j < a" "a < length t" "t ! a = 0x40"
    "\<forall>k. j \<le> k \<and> k < a \<longrightarrow> class_matches local_class (t ! k)"
    by (rule email_match_structure)
  have "\<not> a < length u"
  proof
    assume near: "a < length u"
    then have "t ! a = u ! a" by (simp add: t_def nth_append)
    with a(3) assms(1) nth_mem [OF near] show False by simp
  qed
  moreover have "\<not> length u + 4 \<le> a"
  proof
    assume far: "length u + 4 \<le> a"
    define k where "k = a - length (u @ js ''***@'')"
    have idx: "a = length (u @ js ''***@'') + k"
      using far by (simp add: k_def js_def)
    have "t = (u @ js ''***@'') @ v" by (simp add: t_def)
    then have "t ! a = v ! k" by (subst idx) (simp only: nth_append_length_plus)
    moreover have "k < length v"
      using a(2) far by (simp add: t_def js_def k_def)
    ultimately show False using a(3) assms(2) nth_mem [of k v] by simp
  qed
  ultimately consider "a = length u" | "a = length u + 1" | "a = length u + 2" | "a = length u + 3"
    by linarith
  then have "a = length u + 3"
    using a(3) by cases (simp_all add: t_def nth_append js_def)
  with a(1) have "j \<le> length u + 2" "length u + 2 < a" by simp_all
  with a(4) have "class_matches local_class (t ! (length u + 2))" by blast
  then show False
    by (simp add: t_def nth_append js_def class_matches_def local_class_def)
qed

subsection \<open>The cpr pattern after the email rule\<close>

text \<open>
  The email rule cuts a string behind the first two code units of the local part. A match of
  the cpr pattern in the result would end at the cut or lie in copied text; one that ends at the
  cut would start before the email match, where the email pattern would then match too.
\<close>

lemma masked_nth:
  assumes "c \<le> a" and "a < length s" and "s ! a = 0x40"
    and t: "t = take c s @ js ''***@'' @ drop (a + 1) s"
  shows "length t = c + 4 + (length s - (a + 1))"
    and "\<And>k. k < c \<Longrightarrow> t ! k = s ! k"
    and "\<And>k. c \<le> k \<Longrightarrow> k < c + 3 \<Longrightarrow> t ! k = 0x2A"
    and "\<And>k. c + 3 \<le> k \<Longrightarrow> k < length t \<Longrightarrow> t ! k = s ! (k - (c + 3) + a)"
proof -
  have c: "length (take c s) = c" using assms(1,2) by simp
  show len: "length t = c + 4 + (length s - (a + 1))"
    using c by (simp add: t js_def)
  show "t ! k = s ! k" if "k < c" for k
    using that c by (simp add: t nth_append)
  show "t ! k = 0x2A" if "c \<le> k" "k < c + 3" for k
  proof -
    from that consider "k = c" | "k = c + 1" | "k = c + 2" by linarith
    then show ?thesis using c by cases (simp_all add: t nth_append js_def)
  qed
  show "t ! k = s ! (k - (c + 3) + a)" if "c + 3 \<le> k" "k < length t" for k
  proof (cases "k = c + 3")
    case True
    then show ?thesis using c assms(3) by (simp add: t nth_append js_def)
  next
    case False
    define i where "i = k - (c + 4)"
    have k: "k = length (take c s @ js ''***@'') + i"
      using that False c by (simp add: i_def js_def)
    have "t = (take c s @ js ''***@'') @ drop (a + 1) s" by (simp add: t)
    then have "t ! k = drop (a + 1) s ! i" by (subst k) (simp only: nth_append_length_plus)
    moreover have "i < length s - (a + 1)" using that False len by (simp add: i_def)
    then have "drop (a + 1) s ! i = s ! (a + 1 + i)" using assms(2) by simp
    moreover have "k - (c + 3) + a = a + 1 + i" using that False by (simp add: i_def)
    ultimately show ?thesis by (simp only:)
  qed
qed

lemma masked_word_at:
  assumes "c \<le> a" and "a < length s" and "s ! a = 0x40"
    and t: "t = take c s @ js ''***@'' @ drop (a + 1) s"
  shows "\<And>k. k < c \<Longrightarrow> word_at t (int k) = word_at s (int k)"
    and "word_at t (int c) = False"
    and "\<And>k. c + 3 \<le> k \<Longrightarrow> word_at t (int k) = word_at s (int (k - (c + 3) + a))"
proof -
  note nth = masked_nth [OF assms]
  show "word_at t (int k) = word_at s (int k)" if "k < c" for k
    using that nth(1) nth(2) [of k] assms(1,2) by (simp add: word_at_nth)
  show "word_at t (int c) = False"
    using nth(1) nth(3) [of c] by (simp add: word_at_nth is_word_char_def)
  show "word_at t (int k) = word_at s (int (k - (c + 3) + a))" if "c + 3 \<le> k" for k
  proof (cases "k < length t")
    case True
    then have "k - (c + 3) + a < length s" using nth(1) that assms(2) by simp
    with True nth(4) [OF that True] show ?thesis by (simp add: word_at_nth del: of_nat_add)
  next
    case False
    then have "length s \<le> k - (c + 3) + a" using nth(1) that assms(2) by simp
    with False show ?thesis by (simp add: word_at_end del: of_nat_add)
  qed
qed

lemma unmatched_after_email_rule:
  assumes q: "guarded q" "regex_chars (class_matches local_class) q" "3 \<le> min_length q"
    and first: "\<forall>k<m. matcher email_pattern s k = []"
    and a: "m < a" "a < length s" "s ! a = 0x40"
    and local_part: "\<forall>k. m \<le> k \<and> k < a \<longrightarrow> class_matches local_class (s ! k)"
    and tail: "e \<in> set (matcher email_tail s (a + 1))"
    and s: "unmatched q s"
  shows "unmatched q (take (min (m + 2) a) s @ js ''***@'' @ drop (a + 1) s)"
proof -
  define c where "c = min (m + 2) a"
  define t where "t = take c s @ js ''***@'' @ drop (a + 1) s"
  have c: "c \<le> a" by (simp add: c_def)
  note nth = masked_nth [OF c a(2,3) t_def]
  note word = masked_word_at [OF c a(2,3) t_def]
  have "matcher q t j = []" for j
  proof (rule ccontr)
    assume "matcher q t j \<noteq> []"
    then obtain e' where e': "e' \<in> set (matcher q t j)" by (cases "matcher q t j") auto
    with q(1) have g: "j < e'" "boundary t j" "boundary t e'"
      unfolding guarded_def by blast+
    from g(3) have len: "e' \<le> length t" by (rule boundary_in_range)
    have chars: "class_matches local_class (t ! k)" if "j \<le> k" "k < e'" for k
      using matcher_chars [OF q(2) e' that] .
    have not_local: "\<not> class_matches local_class (t ! k)" if "c \<le> k" "k < c + 4" for k
    proof (cases "k < c + 3")
      case True
      with nth(3) [OF that(1)] show ?thesis by (simp add: class_matches_def local_class_def)
    next
      case False
      with that have "k = c + 3" by simp
      with nth(4) [of k] nth(1) a(3) show ?thesis
        by (simp add: class_matches_def local_class_def)
    qed
    have "e' \<le> c \<or> c + 4 \<le> j"
    proof (rule ccontr)
      assume "\<not> (e' \<le> c \<or> c + 4 \<le> j)"
      with g(1) have "j \<le> max j c" "max j c < e'" "c \<le> max j c" "max j c < c + 4"
        by simp_all
      with chars not_local show False by blast
    qed
    then show False
    proof
      assume left: "e' \<le> c"
      have before: "word_at t (int j - 1) = word_at s (int j - 1)"
      proof (cases j)
        case 0
        then show ?thesis by (simp add: word_at_def)
      next
        case (Suc j')
        with g(1) left word(1) [of j'] show ?thesis by simp
      qed
      show False
      proof (cases "word_at t (int e') = word_at s (int e')")
        case True
        have "agree t j s j (e' - j)"
        proof (rule agreeI)
          show "j + (e' - j) \<le> length t" using g(1) len by simp
          show "j + (e' - j) \<le> length s" using g(1) left c a(2) by simp
          show "t ! (j + k) = s ! (j + k)" if "k < e' - j" for k
            using that left by (intro nth(2)) simp
          show "word_at t (int j - 1) = word_at s (int j - 1)" by (rule before)
          show "word_at t (int (j + (e' - j))) = word_at s (int (j + (e' - j)))"
            using True g(1) by simp
        qed
        from matcher_local [OF this, of 0 "e' - j" q] e' g(1)
        have "e' \<in> set (matcher q s j)" by simp
        with s show False by (simp add: unmatched_def)
      next
        case False
        with word(1) [of e'] left have end_c: "e' = c" by (cases "e' < c") simp_all
        with False word(2) have "word_at s (int c)" by simp
        then have "is_word_char (s ! c)" using c a(2) by (simp add: word_at_nth)
        with a(3) have "c \<noteq> a" by (auto simp add: is_word_char_def)
        then have cm: "c = m + 2" unfolding c_def by (simp add: min_def split: if_splits)
        from matcher_min_length [OF e'] q(3) end_c cm have jm: "j < m" by simp
        have "boundary s j"
          using g(2) before word(1) [of j] g(1) left by (simp add: boundary_def)
        moreover have "\<forall>k. j \<le> k \<and> k < a \<longrightarrow> class_matches local_class (s ! k)"
        proof (intro allI impI)
          fix k
          assume k: "j \<le> k \<and> k < a"
          show "class_matches local_class (s ! k)"
          proof (cases "k < c")
            case True
            with chars [of k] k end_c nth(2) [of k] show ?thesis by simp
          next
            case False
            with k cm local_part show ?thesis by simp
          qed
        qed
        ultimately have "e \<in> set (matcher email_pattern s j)"
          using jm a tail by (intro email_match_build [where a = a]) simp_all
        with first jm show False by auto
      qed
    next
      assume right: "c + 4 \<le> j"
      define i where "i = j - (c + 3) + a"
      have shift: "k - (c + 3) + a = i + (k - j)" if "j \<le> k" for k
        using that right by (simp add: i_def)
      have "agree t j s i (e' - j)"
      proof (rule agreeI)
        show "j + (e' - j) \<le> length t" using g(1) len by simp
        show "i + (e' - j) \<le> length s" using g(1) len right nth(1) a(2) by (simp add: i_def)
        show "t ! (j + k) = s ! (i + k)" if "k < e' - j" for k
          using nth(4) [of "j + k"] that right len shift [of "j + k"] by simp
        show "word_at t (int j - 1) = word_at s (int i - 1)"
        proof -
          obtain j' where j': "j = Suc j'" using right by (cases j) simp_all
          have i': "i = Suc (j' - (c + 3) + a)" using right by (simp add: i_def j')
          have "c + 3 \<le> j'" using right j' by simp
          from word(3) [OF this] show ?thesis unfolding j' i' word_at_Suc .
        qed
        show "word_at t (int (j + (e' - j))) = word_at s (int (i + (e' - j)))"
        proof -
          have "j + (e' - j) = e'" "i + (e' - j) = e' - (c + 3) + a"
            using g(1) shift [of e'] by simp_all
          moreover have "c + 3 \<le> e'" using right g(1) by simp
          ultimately show ?thesis using word(3) [of e'] by (simp only:)
        qed
      qed
      from matcher_local [OF this, of 0 "e' - j" q] e' g(1)
      have "i + (e' - j) \<in> set (matcher q s i)" by simp
      with s show False by (auto simp add: unmatched_def)
    qed
  qed
  then show ?thesis by (simp add: unmatched_def t_def c_def)
qed

lemma cpr_after_email_rule:
  "regex_chars (class_matches local_class) cpr_pattern" "3 \<le> min_length cpr_pattern"
  by (auto simp add: cpr_pattern_def class_matches_def local_class_def)

subsection \<open>The rules of the registry\<close>

text \<open>
  After each rule its own pattern has no match, and the later rules do not bring a match of an
  earlier pattern back; the second pass therefore changes nothing.
\<close>

lemma email_rule_settles:
  assumes "count_list s 0x40 \<le> 1"
  shows "unmatched email_pattern (replace s email_pattern (Computed email_replacement))"
  using assms
proof (cases rule: email_step)
  case none
  then show ?thesis by (simp add: replace_unmatched)
next
  case (one m a e)
  have "0x40 \<notin> set (take (min (m + 2) a) s)"
  proof -
    have "take a s = take (min (m + 2) a) s @ drop (min (m + 2) a) (take a s)"
      by (metis append_take_drop_id min.cobounded2 take_take min.absorb1)
    then have "set (take (min (m + 2) a) s) \<subseteq> set (take a s)"
      by (metis set_append Un_upper1)
    with count_outside(1) [OF assms one(3,4)] show ?thesis by auto
  qed
  with count_outside(2) [OF assms one(3,4)] show ?thesis
    unfolding one(7) by (intro email_unmatched_after)
qed

lemma cpr_survives_email_rule:
  assumes "count_list s 0x40 \<le> 1" and "unmatched cpr_pattern s"
  shows "unmatched cpr_pattern (replace s email_pattern (Computed email_replacement))"
  using assms(1)
proof (cases rule: email_step)
  case none
  with assms(2) show ?thesis by (simp add: replace_unmatched)
next
  case (one m a e)
  show ?thesis
    unfolding one(7)
    by (rule unmatched_after_email_rule
          [OF guarded_cpr cpr_after_email_rule one(1,2,3,4,5,6) assms(2)])
qed

lemma maskString_idempotent:
  assumes "get_property config (js ''email'') = JBool False \<or> count_list s 0x40 \<le> 1"
  shows "maskString (maskString (JString s) config) config = maskString (JString s) config"
proof -
  define on where "on key \<longleftrightarrow> get_property config (js key) \<noteq> JBool False" for key
  define step where "step key p r x = (if on key then replace x p r else x)" for key p r x
  define run where
    "run x = step ''ssn'' ssn_pattern (Constant (js ''***-**-****''))
              (step ''creditCard'' creditCard_pattern (Constant (js ''**** **** **** ****''))
                (step ''phone'' phone_pattern (Constant (js ''** ** ** **''))
                  (step ''email'' email_pattern (Computed email_replacement)
                    (step ''cpr'' cpr_pattern (Constant (js ''******-****'')) x))))" for x
  have steps: "maskString (JString x) config = JString (run x)" for x
    by (simp add: PII_PATTERNS_def run_def step_def on_def)
  have own: "unmatched p (step key p (Constant P) x)"
    if "guarded p" "framed P" "on key" for p P key x
    using that by (simp add: step_def unmatched_after_own_rule)
  have other: "unmatched p (step key p' (Constant P) x)"
    if "guarded p" "guarded p'" "framed P" "unmatched p x" for p p' P key x
    using that by (simp add: step_def unmatched_after_other_rule)
  have fixed: "step key p r x = x" if "on key \<Longrightarrow> unmatched p x" for key p r x
    using that by (simp add: step_def replace_unmatched)
  define s1 where "s1 = step ''cpr'' cpr_pattern (Constant (js ''******-****'')) s"
  define s2 where "s2 = step ''email'' email_pattern (Computed email_replacement) s1"
  define s3 where "s3 = step ''phone'' phone_pattern (Constant (js ''** ** ** **'')) s2"
  define s4 where
    "s4 = step ''creditCard'' creditCard_pattern (Constant (js ''**** **** **** ****'')) s3"
  define s5 where "s5 = step ''ssn'' ssn_pattern (Constant (js ''***-**-****'')) s4"
  have s5: "run s = s5" by (simp add: run_def s1_def s2_def s3_def s4_def s5_def)
  have single: "count_list s1 0x40 \<le> 1" if "on ''email''"
  proof -
    from that assms have "count_list s 0x40 \<le> 1" by (simp add: on_def)
    moreover have "count_list s1 0x40 \<le> count_list s 0x40"
      using count_replace [OF guarded_cpr, of "0x40" "js ''******-****''" s]
      by (simp add: s1_def step_def js_def)
    ultimately show ?thesis by simp
  qed
  have cpr: "unmatched cpr_pattern s5" if "on ''cpr''"
  proof -
    have "unmatched cpr_pattern s1"
      unfolding s1_def using guarded_cpr framed_placeholders(1) that by (rule own)
    then have "unmatched cpr_pattern s2"
      using single by (simp add: s2_def step_def cpr_survives_email_rule)
    then have "unmatched cpr_pattern s3"
      unfolding s3_def by (intro other guarded_cpr guarded_phone framed_placeholders)
    then have "unmatched cpr_pattern s4"
      unfolding s4_def by (intro other guarded_cpr guarded_creditCard framed_placeholders)
    then show ?thesis
      unfolding s5_def by (intro other guarded_cpr guarded_ssn framed_placeholders)
  qed
  have email: "unmatched email_pattern s5" if "on ''email''"
  proof -
    have "unmatched email_pattern s2"
      using single that by (simp add: s2_def step_def email_rule_settles)
    then have "unmatched email_pattern s3"
      unfolding s3_def by (intro other guarded_email guarded_phone framed_placeholders)
    then have "unmatched email_pattern s4"
      unfolding s4_def by (intro other guarded_email guarded_creditCard framed_placeholders)
    then show ?thesis
      unfolding s5_def by (intro other guarded_email guarded_ssn framed_placeholders)
  qed
  have phone: "unmatched phone_pattern s5" if "on ''phone''"
  proof -
    have "unmatched phone_pattern s3"
      unfolding s3_def using guarded_phone framed_placeholders(2) that by (rule own)
    then have "unmatched phone_pattern s4"
      unfolding s4_def by (intro other guarded_phone guarded_creditCard framed_placeholders)
    then show ?thesis
      unfolding s5_def by (intro other guarded_phone guarded_ssn framed_placeholders)
  qed
  have creditCard: "unmatched creditCard_pattern s5" if "on ''creditCard''"
  proof -
    have "unmatched creditCard_pattern s4"
      unfolding s4_def using guarded_creditCard framed_placeholders(3) that by (rule own)
    then show ?thesis
      unfolding s5_def by (intro other guarded_creditCard guarded_ssn framed_placeholders)
  qed
  have ssn: "unmatched ssn_pattern s5" if "on ''ssn''"
    unfolding s5_def using guarded_ssn framed_placeholders(4) that by (rule own)
  have "run s5 = s5"
    unfolding run_def
    by (simp only: fixed [OF cpr] fixed [OF email] fixed [OF phone] fixed [OF creditCard]
          fixed [OF ssn])
  then show ?thesis by (simp only: steps s5)
qed

subsection \<open>From strings to values\<close>

text \<open>
  When masking changes no masked string, it changes no masked value.
\<close>

lemma copied_entries_fixed:
  assumes "copy_entries g entries (Inr []) = Inr masked"
    and "\<And>key v m. (key, v) \<in> set entries \<Longrightarrow> g v = Inr m \<Longrightarrow> g m = Inr m"
  shows "copy_entries g masked (Inr []) = Inr masked"
proof -
  define f where "f v = projr (g v)" for v
  have total: "\<forall>(key, v) \<in> set entries. g v = Inr (f v)"
    using copy_entries_success [OF assms(1)] by (fastforce simp add: f_def)
  from copy_entries_total [OF this, of "[]"] assms(1)
  have masked: "masked = fold (\<lambda>(key, v) masked. set_property masked key (f v)) entries []"
    by simp
  have "\<forall>(key, v) \<in> set entries. g (f v) = Inr (f v)"
    using total assms(2) by fastforce
  then have inv: "distinct (map fst masked) \<and> js ''__proto__'' \<notin> fst ` set masked
                  \<and> (\<forall>(k, v) \<in> set masked. g v = Inr v)"
    unfolding masked
    by (intro fold_set_property_invariant [where P = "\<lambda>v. g v = Inr v"]) simp_all
  then have "\<forall>(key, v) \<in> set masked. g v = Inr (id v)" by simp
  from copy_entries_total [OF this, of "[]"]
  have "copy_entries g masked (Inr [])
          = Inr (fold (\<lambda>(key, v) acc. set_property acc key (id v)) masked [])" .
  also have "fold (\<lambda>(key, v) acc. set_property acc key (id v)) masked []
               = [] @ map (\<lambda>(key, v). (key, id v)) masked"
    by (rule fold_set_property_map) (use inv in auto)
  also have "\<dots> = masked" by (auto intro!: map_idI)
  finally show ?thesis .
qed

lemma maskObject_again:
  "maskObject v config = Inr v'
   \<Longrightarrow> (\<And>s. s \<in> strings_of v
         \<Longrightarrow> maskString (maskString (JString s) config) config = maskString (JString s) config)
   \<Longrightarrow> maskObject v' config = Inr v'"
proof (induction v config arbitrary: v' rule: maskObject.induct)
  case (3 items config)
  let ?g = "\<lambda>item. maskObject item config"
  from "3.prems"(1) obtain masked where masked:
    "all_results (map ?g items) = Inr masked" "v' = JArray masked"
    by (auto split: sum.splits)
  define f where "f item = projr (?g item)" for item
  have total: "\<forall>item \<in> set items. ?g item = Inr (f item)"
    using all_results_success [OF masked(1)] by (fastforce simp add: f_def)
  from all_results_total [OF this] masked(1) have items: "masked = map f items" by simp
  have "\<forall>m \<in> set masked. ?g m = Inr (id m)"
  proof
    fix m
    assume "m \<in> set masked"
    then obtain item where item: "item \<in> set items" "m = f item" by (auto simp add: items)
    with total have "?g item = Inr m" by simp
    moreover have "maskString (maskString (JString s) config) config = maskString (JString s) config"
      if "s \<in> strings_of item" for s
      using that item(1) by (intro "3.prems"(2)) auto
    ultimately show "?g m = Inr (id m)" using "3.IH" [OF item(1)] by simp
  qed
  from all_results_total [OF this] show ?case by (simp add: masked(2))
next
  case (4 entries config)
  let ?g = "\<lambda>v. maskObject v config"
  from "4.prems"(1) obtain masked where masked:
    "copy_entries ?g entries (Inr []) = Inr masked" "v' = JObject masked"
    by (auto simp add: maskObject_object simp del: maskObject.simps split: sum.splits)
  have "copy_entries ?g masked (Inr []) = Inr masked"
  proof (rule copied_entries_fixed [OF masked(1)])
    fix key v m
    assume entry: "(key, v) \<in> set entries" and m: "?g v = Inr m"
    have "maskString (maskString (JString s) config) config = maskString (JString s) config"
      if "s \<in> strings_of v" for s
      using that entry by (intro "4.prems"(2)) auto
    with "4.IH" [OF entry refl m] show "?g m = Inr m" by simp
  qed
  then show ?case by (simp add: maskObject_object masked(2) del: maskObject.simps)
next
  case (6 entries config)
  let ?g = "\<lambda>v. maskObject v config"
  from "6.prems"(1) obtain masked where masked:
    "copy_entries ?g entries (Inr []) = Inr masked" "v' = JObject masked"
    by (auto simp add: maskObject_object simp del: maskObject.simps split: sum.splits)
  have "copy_entries ?g masked (Inr []) = Inr masked"
  proof (rule copied_entries_fixed [OF masked(1)])
    fix key v m
    assume entry: "(key, v) \<in> set entries" and m: "?g v = Inr m"
    have "maskString (maskString (JString s) config) config = maskString (JString s) config"
      if "s \<in> strings_of v" for s
      using that entry by (intro "6.prems"(2)) auto
    with "6.IH" [OF entry refl m] show "?g m = Inr m" by simp
  qed
  then show ?case by (simp add: maskObject_object masked(2) del: maskObject.simps)
next
  case (7 s config)
  then show ?case by auto
qed auto

lemma maskPII_again:
  assumes "get_property config (js ''email'') = JBool False
           \<or> (\<forall>s \<in> strings_of v. count_list s 0x40 \<le> 1)"
    and "maskPII v (JObject config) = Inr v'"
  shows "maskPII v' (JObject config) = Inr v'"
proof (cases "truthy (get_property config (js ''enabled''))")
  case False
  with assms(2) show ?thesis by (simp add: maskPII_def)
next
  case True
  with assms(2) have v': "maskObject v config = Inr v'" by (simp add: maskPII_def)
  have "maskObject v' config = Inr v'"
  proof (rule maskObject_again [OF v'])
    fix s
    assume "s \<in> strings_of v"
    with assms(1) have "get_property config (js ''email'') = JBool False \<or> count_list s 0x40 \<le> 1"
      by auto
    then show "maskString (maskString (JString s) config) config = maskString (JString s) config"
      by (rule maskString_idempotent)
  qed
  with True show ?thesis by (simp add: maskPII_def)
qed

text \<open>
  Claim C2 as amended: for every value of the Value union and every configuration, \<open>maskPII\<close>
  returns a result, and masking that result again with the same configuration returns it
  unchanged, whenever the email rule is switched off (\<open>email\<close> is \<open>false\<close>) or every string of
  the value holds the code unit \<open>@\<close> (\<open>0x40\<close>) at most once.
\<close>

theorem remasking_is_no_op:
  assumes "get_property config (js ''email'') = JBool False
           \<or> (\<forall>s \<in> strings_of v. count_list s 0x40 \<le> 1)"
    and "in_union v"
  shows "\<exists>v'. maskPII v (JObject config) = Inr v' \<and> maskPII v' (JObject config) = Inr v'"
proof -
  have "\<exists>v'. maskPII v (JObject config) = Inr v'"
    using maskObject_in_union [OF assms(2)] by (simp add: maskPII_def)
  then obtain v' where v': "maskPII v (JObject config) = Inr v'" ..
  from maskPII_again [OF assms(1) this] v' show ?thesis by blast
qed

text \<open>
  A record with an email address and a telephone number under the configuration with all
  rules on, and the string with two \<open>@\<close> beside a telephone number under a configuration with
  the email rule off.
\<close>

theorem remasking_is_no_op_witness:
  "maskPII (JObject [(js ''mail'', JString (js ''john.doe@example.com'')),
                     (js ''tel'', JString (js ''12345678'')), (js ''n'', JNumber (Num 1))])
           all_enabled
     = Inr (JObject [(js ''mail'', JString (js ''jo***@example.com'')),
                     (js ''tel'', JString (js ''** ** ** **'')), (js ''n'', JNumber (Num 1))]) \<and>
   maskPII (JObject [(js ''mail'', JString (js ''jo***@example.com'')),
                     (js ''tel'', JString (js ''** ** ** **'')), (js ''n'', JNumber (Num 1))])
           all_enabled
     = Inr (JObject [(js ''mail'', JString (js ''jo***@example.com'')),
                     (js ''tel'', JString (js ''** ** ** **'')), (js ''n'', JNumber (Num 1))]) \<and>
   maskPII (JString (js ''a@b.comx@y.org 12345678''))
           (JObject [(js ''enabled'', JBool True), (js ''email'', JBool False)])
     = Inr (JString (js ''a@b.comx@y.org ** ** ** **'')) \<and>
   maskPII (JString (js ''a@b.comx@y.org ** ** ** **''))
           (JObject [(js ''enabled'', JBool True), (js ''email'', JBool False)])
     = Inr (JString (js ''a@b.comx@y.org ** ** ** **''))"
proof -
  let ?input = "JObject [(js ''mail'', JString (js ''john.doe@example.com'')),
                          (js ''tel'', JString (js ''12345678'')), (js ''n'', JNumber (Num 1))]"
  let ?on = "[(js ''enabled'', JBool True), (js ''cpr'', JBool True), (js ''email'', JBool True),
              (js ''phone'', JBool True), (js ''creditCard'', JBool True), (js ''ssn'', JBool True)]"
  let ?off = "[(js ''enabled'', JBool True), (js ''email'', JBool False)]"
  have one_at: "get_property ?on (js ''email'') = JBool False \<or>
                (\<forall>s \<in> strings_of ?input. count_list s 0x40 \<le> 1)"
    by (simp add: js_def)
  have shape: "in_union ?input" by simp
  have first: "maskPII ?input (JObject ?on)
     = Inr (JObject [(js ''mail'', JString (js ''jo***@example.com'')),
                     (js ''tel'', JString (js ''** ** ** **'')), (js ''n'', JNumber (Num 1))])"
    by (simp add: evaluation)
  have email_off:
    "get_property ?off (js ''email'') = JBool False \<or>
     (\<forall>s \<in> strings_of (JString (js ''a@b.comx@y.org 12345678'')). count_list s 0x40 \<le> 1)"
    by (simp add: get_property_def js_def)
  have leaf: "in_union (JString (js ''a@b.comx@y.org 12345678''))" by simp
  have second: "maskPII (JString (js ''a@b.comx@y.org 12345678'')) (JObject ?off)
     = Inr (JString (js ''a@b.comx@y.org ** ** ** **''))"
    by (simp add: evaluation)
  from remasking_is_no_op [OF one_at shape] first
  have "maskPII (JObject [(js ''mail'', JString (js ''jo***@example.com'')),
                          (js ''tel'', JString (js ''** ** ** **'')), (js ''n'', JNumber (Num 1))])
                (JObject ?on)
     = Inr (JObject [(js ''mail'', JString (js ''jo***@example.com'')),
                     (js ''tel'', JString (js ''** ** ** **'')), (js ''n'', JNumber (Num 1))])"
    by (metis sum.inject(2))
  moreover from remasking_is_no_op [OF email_off leaf] second
  have "maskPII (JString (js ''a@b.comx@y.org ** ** ** **'')) (JObject ?off)
     = Inr (JString (js ''a@b.comx@y.org ** ** ** **''))"
    by (metis sum.inject(2))
  ultimately show ?thesis
    using first second unfolding all_enabled_def by (intro conjI)
qed

end
